theory Spec2Isabelle
  imports Main "HOL-Library.Sublist"
begin

section \<open>Python strings, errors and the regular expressions of edit.py\<close>

text \<open>
  A Python \<open>str\<close> is modelled as a \<open>string\<close>; one \<open>char\<close> stands for one Python character.
  The code inspects only ASCII characters (\<open>K D S M I R A _ [ ] * #\<close>, the space and the
  newline) and compares all others for equality only.  A Python exception is a value of
  \<open>error\<close>; \<open>pdb.set_trace()\<close> stops the run and is the value \<open>Breakpoint\<close>.
\<close>

datatype error = IndexError | AssertionError | Breakpoint

definition NL :: char where
  "NL = CHR 0x0A"

text \<open>\<open>str.isspace\<close> on the characters below 256, as used by \<open>str.strip()\<close> and \<open>str.split()\<close>.\<close>

definition isspace :: "char \<Rightarrow> bool" where
  "isspace c = ((of_char c :: nat) \<in> {9, 10, 11, 12, 13, 28, 29, 30, 31, 32, 133, 160})"

definition strip :: "string \<Rightarrow> string" where
  "strip s = rev (dropWhile isspace (rev (dropWhile isspace s)))"

text \<open>\<open>str.split()\<close>: the maximal runs of non-whitespace characters; \<open>cur\<close> is the run being read.\<close>

fun split_from :: "string \<Rightarrow> string \<Rightarrow> string list" where
  "split_from cur [] = (if cur = [] then [] else [cur])"
| "split_from cur (c # cs) =
     (if isspace c then (if cur = [] then split_from [] cs else cur # split_from [] cs)
      else split_from (cur @ [c]) cs)"

definition split :: "string \<Rightarrow> string list" where
  "split s = split_from [] s"

text \<open>\<open>sep.join(xs)\<close>.\<close>

fun join :: "string \<Rightarrow> string list \<Rightarrow> string" where
  "join sep [] = []"
| "join sep [x] = x"
| "join sep (x # y # ys) = x @ sep @ join sep (y # ys)"

text \<open>\<open>s.replace('##', '')\<close>: the non-overlapping occurrences of \<open>##\<close> are removed, left to right.\<close>

fun remove_hashes :: "string \<Rightarrow> string" where
  "remove_hashes [] = []"
| "remove_hashes [c] = [c]"
| "remove_hashes (c # d # cs) =
     (if c = CHR ''#'' \<and> d = CHR ''#'' then remove_hashes cs else c # remove_hashes (d # cs))"

text \<open>
  A regular expression is modelled by its matcher at the start of a text: the length of the
  match, if there is one.  \<open>lazy_len\<close> is the lazy \<open>.*?\<close> in front of a \<open>]\<close>: the dot does
  not match a newline, so the match is the text up to the first \<open>]\<close>, if no newline comes
  before it.  \<open>bracket_op x\<close> is \<open>x_\[.*?\]+\<close>, \<open>lit p\<close> a literal, \<open>plus c\<close> is \<open>c+\<close> and
  \<open>dot\<close> is \<open>.\<close>; \<open>first_match\<close> is the ordered alternation \<open>|\<close>.
\<close>

fun lazy_len :: "string \<Rightarrow> nat option" where
  "lazy_len [] = None"
| "lazy_len (c # cs) =
     (if c = CHR '']'' then Some 0
      else if c = NL then None
      else map_option Suc (lazy_len cs))"

definition bracket_op :: "char \<Rightarrow> string \<Rightarrow> nat option" where
  "bracket_op x s =
     (if prefix [x, CHR ''_'', CHR ''[''] s
      then (case lazy_len (drop 3 s) of
              None \<Rightarrow> None
            | Some n \<Rightarrow> Some (3 + n + length (takeWhile (\<lambda>c. c = CHR '']'') (drop (3 + n) s))))
      else None)"

definition lit :: "string \<Rightarrow> string \<Rightarrow> nat option" where
  "lit p s = (if prefix p s then Some (length p) else None)"

definition plus :: "char \<Rightarrow> string \<Rightarrow> nat option" where
  "plus c s = (if prefix [c] s then Some (length (takeWhile (\<lambda>x. x = c) s)) else None)"

definition dot :: "string \<Rightarrow> nat option" where
  "dot s = (case s of [] \<Rightarrow> None | c # cs \<Rightarrow> if c = NL then None else Some 1)"

fun first_match :: "(string \<Rightarrow> nat option) list \<Rightarrow> string \<Rightarrow> nat option" where
  "first_match [] s = None"
| "first_match (m # ms) s = (case m s of Some n \<Rightarrow> Some n | None \<Rightarrow> first_match ms s)"

text \<open>
  \<open>re.findall\<close>: the matches from left to right; a character where nothing matches is skipped.
  Every pattern of edit.py matches at least one character, so that the scan goes on behind the
  match; \<open>max 1 n\<close> only makes the recursion end for every matcher.
\<close>

function findall :: "(string \<Rightarrow> nat option) \<Rightarrow> string \<Rightarrow> string list" where
  "findall re s =
     (if s = [] then []
      else (case re s of
              None \<Rightarrow> findall re (tl s)
            | Some n \<Rightarrow> take n s # findall re (drop (max 1 n) s)))"
  by pat_completeness auto
termination
  by (relation "measure (\<lambda>(re, s). length s)") auto

text \<open>
  \<open>re.sub(r'x_\[(.*?)\]', r'\1', s)\<close>: every match is replaced by its group, the text between
  the brackets; the other characters are copied.
\<close>

function sub_bracket :: "char \<Rightarrow> string \<Rightarrow> string" where
  "sub_bracket x s =
     (if s = [] then []
      else (case (if prefix [x, CHR ''_'', CHR ''[''] s then lazy_len (drop 3 s) else None) of
              Some n \<Rightarrow> take n (drop 3 s) @ sub_bracket x (drop (n + 4) s)
            | None \<Rightarrow> hd s # sub_bracket x (tl s)))"
  by pat_completeness auto
termination
  by (relation "measure (\<lambda>(x, s). length s)") auto

text \<open>
  \<open>re.sub(r"(?<!\[)S(?!\])", '', edit)\<close>: an \<open>S\<close> is removed unless the character before it is
  \<open>[\<close> or the character after it is \<open>]\<close>; \<open>prev\<close> is the character before the text.
\<close>

fun strip_soft_keep :: "char option \<Rightarrow> string \<Rightarrow> string" where
  "strip_soft_keep prev [] = []"
| "strip_soft_keep prev (c # cs) =
     (if c = CHR ''S'' \<and> prev \<noteq> Some (CHR ''['') \<and> (case cs of [] \<Rightarrow> True | d # ds \<Rightarrow> d \<noteq> CHR '']'')
      then strip_soft_keep (Some c) cs
      else c # strip_soft_keep (Some c) cs)"

text \<open>The four patterns of edit.py.\<close>

definition char_edit_re :: "string \<Rightarrow> nat option" where
  \<comment> \<open>\<open>I_\[.*?\]+|A_\[.*?\]+|R_\[.*?\]+|K\*|D\*|.\<close> of \<open>apply\<close> and \<open>is_applicable\<close>\<close>
  "char_edit_re =
     first_match [bracket_op (CHR ''I''), bracket_op (CHR ''A''), bracket_op (CHR ''R''),
                  lit ''K*'', lit ''D*'', dot]"

definition append_re :: "string \<Rightarrow> nat option" where
  \<comment> \<open>\<open>A_\[.*?\]+\<close> of \<open>_apply_append\<close>\<close>
  "append_re = bracket_op (CHR ''A'')"

definition project_re :: "string \<Rightarrow> nat option" where
  \<comment> \<open>\<open>I_\[.*?\]+|R_\[.*?\]+|D+|K+|.\<close> of \<open>_project_edit\<close>\<close>
  "project_re =
     first_match [bracket_op (CHR ''I''), bracket_op (CHR ''R''), plus (CHR ''D''),
                  plus (CHR ''K''), dot]"

definition compress_re :: "string \<Rightarrow> nat option" where
  \<comment> \<open>\<open>I_\[.*?\]+|R_\[.*?\]+|A_\[.*?\]+|D+|K+|.\<close> of \<open>compress_edit\<close>\<close>
  "compress_re =
     first_match [bracket_op (CHR ''I''), bracket_op (CHR ''R''), bracket_op (CHR ''A''),
                  plus (CHR ''D''), plus (CHR ''K''), dot]"

declare findall.simps [simp del] sub_bracket.simps [simp del]

section \<open>The Edit Encoder: class Edit and get_edits\<close>

record Edit =
  word :: string
  edit :: string

text \<open>The f-strings \<open>f"I_[{p}]"\<close> and \<open>f"R_[{p}]"\<close>.\<close>

definition ins :: "string \<Rightarrow> string" where
  "ins p = ''I_['' @ p @ '']''"

definition rep :: "string \<Rightarrow> string" where
  "rep p = ''R_['' @ p @ '']''"

text \<open>
  The \<open>while\<close> loop of \<open>get_edits\<close>, on the unread texts \<open>src_chars[i:]\<close> and \<open>tgt_chars[j:]\<close>.
  It returns the edit built and the two unread texts at the exit of the loop.
\<close>

fun replace_scan :: "string \<Rightarrow> string \<Rightarrow> string \<times> string \<times> string" where
  "replace_scan [] ts = ([], [], ts)"
| "replace_scan (c # cs) [] = ([], c # cs, [])"
| "replace_scan (c # cs) (t # ts) =
     (if c \<noteq> CHR '' ''
      then (case replace_scan cs ts of (e, src_rest, tgt_rest) \<Rightarrow> (rep [t] @ e, src_rest, tgt_rest))
      else (case replace_scan cs (t # ts) of (e, src_rest, tgt_rest) \<Rightarrow> (''M'' @ e, src_rest, tgt_rest)))"

definition get_edits :: "string \<Rightarrow> string \<Rightarrow> error + string" where
  "get_edits src_chars tgt_chars =
     (if tgt_chars = [] then Inr (replicate (length src_chars) (CHR ''D''))
      else if sublist tgt_chars src_chars
        then Inr (map (\<lambda>c. if c \<notin> set tgt_chars then CHR ''D'' else CHR ''K'') src_chars)
      else if length (strip src_chars) = 1 \<and> length tgt_chars = 1
        then Inr (concat (map (\<lambda>c. if c = CHR '' '' then ''M'' else rep [hd tgt_chars]) src_chars))
      else (case replace_scan src_chars tgt_chars of
              (e, src_rest, tgt_rest) \<Rightarrow>
                if tgt_rest \<noteq> [] then Inl AssertionError
                else if src_rest \<noteq> [] then Inr (e @ replicate (length src_rest) (CHR ''D''))
                else Inr e))"

definition is_merge :: "string list \<Rightarrow> string list \<Rightarrow> bool" where
  "is_merge aligned_src_chars aligned_tgt_chars =
     (concat (filter (\<lambda>c. c \<noteq> '' '') aligned_src_chars) = concat aligned_tgt_chars)"

text \<open>
  \<open>Edit._replacments\<close>.  In its last branch \<open>tgt_chars[i]\<close> is read for every index of the
  source, which raises IndexError when the source is the longer one.
\<close>

definition replacments :: "string \<Rightarrow> string \<Rightarrow> error + string" where
  "replacments src_chars tgt_chars =
     (if length tgt_chars = 1 then Inr (rep tgt_chars)
      else if length src_chars = length tgt_chars
        then Inr (concat (map (\<lambda>(s, t). if s = CHR '' '' then ''M'' @ ins [t] else rep [t])
                              (zip src_chars tgt_chars)))
      else if length tgt_chars < length src_chars then Inl IndexError
      else Inr (concat (map (\<lambda>t. rep [t]) (take (length src_chars) tgt_chars)) @
                concat (map (\<lambda>t. ins [t]) (drop (length src_chars) tgt_chars))))"

text \<open>The body of the loop of \<open>Edit._generate_detailed_edit\<close>: the edit of one pair of groups.\<close>

definition detailed_group :: "string \<Rightarrow> string \<Rightarrow> error + string" where
  "detailed_group src_chars tgt_chars =
     (if src_chars = tgt_chars
        then Inr (if src_chars = '' '' then ''S'' else replicate (length src_chars) (CHR ''K''))
      else if src_chars = '' '' \<and> tgt_chars = [] then Inr ''M''
      else if src_chars = '' '' \<and> tgt_chars \<noteq> [] then Inr (''M'' @ ins tgt_chars)
      else if src_chars \<noteq> [] \<and> tgt_chars = []
        then Inr (map (\<lambda>c. if c \<noteq> CHR '' '' then CHR ''D'' else CHR ''M'') src_chars)
      else if src_chars = [] \<and> tgt_chars \<noteq> [] then Inr (ins tgt_chars)
      else if length src_chars > length tgt_chars then get_edits src_chars tgt_chars
      else replacments src_chars tgt_chars)"

text \<open>\<open>Edit._generate_detailed_edit\<close>: the loop over \<open>zip\<close>, which stops at the shorter list.\<close>

fun generate_detailed_edit :: "string list \<Rightarrow> string list \<Rightarrow> error + string" where
  "generate_detailed_edit (s # ss) (t # ts) =
     (case detailed_group s t of
        Inl e \<Rightarrow> Inl e
      | Inr g \<Rightarrow> (case generate_detailed_edit ss ts of Inl e \<Rightarrow> Inl e | Inr r \<Rightarrow> Inr (g @ r)))"
| "generate_detailed_edit [] ts = Inr []"
| "generate_detailed_edit ss [] = Inr []"

text \<open>\<open>Edit.create\<close>.\<close>

definition Edit_create :: "string list \<Rightarrow> string list \<Rightarrow> error + Edit" where
  "Edit_create aligned_src_chars aligned_tgt_chars =
     (let aligned_src_word = concat aligned_src_chars in
      if aligned_src_chars = aligned_tgt_chars
        then Inr \<lparr>word = aligned_src_word, edit = ''K''\<rparr>
      else if aligned_src_chars = [[]] \<and> aligned_tgt_chars \<noteq> [[]]
        then Inr \<lparr>word = aligned_src_word, edit = ins (concat aligned_tgt_chars)\<rparr>
      else if aligned_src_chars \<noteq> [[]] \<and> aligned_tgt_chars = [[]]
        then Inr \<lparr>word = aligned_src_word, edit = ''D''\<rparr>
      else if is_merge aligned_src_chars aligned_tgt_chars
        then Inr \<lparr>word = aligned_src_word,
                  edit = map (\<lambda>c. if c \<noteq> '' '' then CHR ''K'' else CHR ''M'') aligned_src_chars\<rparr>
      else (case generate_detailed_edit aligned_src_chars aligned_tgt_chars of
              Inl e \<Rightarrow> Inl e
            | Inr e \<Rightarrow> Inr \<lparr>word = aligned_src_word, edit = e\<rparr>))"

section \<open>Tag compression\<close>

text \<open>
  \<open>compress_insertions\<close>: the loop over the edits, with the list \<open>_edits\<close> built so far and the
  pending text \<open>insertions\<close>.
\<close>

fun compress_insertions_loop :: "string list \<Rightarrow> string list \<Rightarrow> string \<Rightarrow> string list" where
  "compress_insertions_loop [] edits' insertions =
     (if insertions \<noteq> [] then edits' @ [ins insertions] else edits')"
| "compress_insertions_loop (e # es) edits' insertions =
     (if prefix ''I_'' e
      then compress_insertions_loop es edits' (insertions @ sub_bracket (CHR ''I'') e)
      else if insertions \<noteq> []
        then compress_insertions_loop es (edits' @ [ins insertions] @ [e]) []
      else compress_insertions_loop es (edits' @ [e]) [])"

definition compress_insertions :: "string list \<Rightarrow> string list" where
  "compress_insertions edits = compress_insertions_loop edits [] []"

definition compress_edit :: "string \<Rightarrow> string" where
  "compress_edit e = concat (compress_insertions (findall compress_re e))"

section \<open>The Subword Applier and Validator: class SubwordEdit\<close>

text \<open>
  The fields of \<open>SubwordEdit\<close>; its field \<open>edit\<close> is named \<open>subword_edit\<close> here, as a record
  field name is global.
\<close>

record SubwordEdit =
  subword :: string
  raw_subword :: string
  subword_edit :: string

text \<open>
  \<open>_apply_keep_star\<close> and \<open>_apply_delete_star\<close>: \<open>remaining_edits\<close> is \<open>char_edits[edit_idx:]\<close>.
  The slice \<open>subword[: -n]\<close> with \<open>n > 0\<close> is \<open>take (length subword - n) subword\<close>.
\<close>

definition apply_keep_star :: "string \<Rightarrow> string list \<Rightarrow> string" where
  "apply_keep_star sw remaining_edits =
     (let inserts = filter (\<lambda>x. prefix ''I'' x \<or> prefix ''A'' x) remaining_edits in
      if length inserts = length remaining_edits then sw
      else take (length sw - (length remaining_edits - length inserts)) sw)"

definition apply_delete_star :: "string \<Rightarrow> string list \<Rightarrow> nat" where
  "apply_delete_star sw remaining_edits =
     (let inserts_replaces = filter (\<lambda>x. prefix ''I'' x \<or> prefix ''A'' x) remaining_edits in
      if length inserts_replaces = length remaining_edits then length sw
      else length (take (length sw - (length remaining_edits - length inserts_replaces)) sw))"

text \<open>
  The loop of \<open>_apply_char_edits\<close> from position \<open>i\<close> of the enumeration on: the list is
  \<open>char_edits[i:]\<close>, so that \<open>char_edits[i + 1:]\<close> is its tail.  Reading \<open>subword[idx]\<close> beyond
  the end raises IndexError.
\<close>

fun apply_char_edits_from :: "string \<Rightarrow> nat \<Rightarrow> string list \<Rightarrow> nat \<Rightarrow> string \<Rightarrow> error + string" where
  "apply_char_edits_from sw i [] idx edited_subword = Inr edited_subword"
| "apply_char_edits_from sw i (char_edit # rest) idx edited_subword =
     (if char_edit = ''K'' then
        (if idx < length sw
         then apply_char_edits_from sw (Suc i) rest (idx + 1) (edited_subword @ [sw ! idx])
         else Inl IndexError)
      else if char_edit = ''D'' then
        apply_char_edits_from sw (Suc i) rest (idx + 1) edited_subword
      else if prefix ''I'' char_edit then
        apply_char_edits_from sw (Suc i) rest idx
          (edited_subword @ sub_bracket (CHR ''I'') char_edit)
      else if prefix ''A'' char_edit then
        apply_char_edits_from sw (Suc i) rest idx
          (edited_subword @ (if i \<noteq> 0 then '' '' @ sub_bracket (CHR ''A'') char_edit
                             else sub_bracket (CHR ''A'') char_edit @ '' ''))
      else if char_edit = ''K*'' then
        (let chars_to_keep = apply_keep_star (drop idx sw) rest in
         apply_char_edits_from sw (Suc i) rest (idx + length chars_to_keep)
           (edited_subword @ chars_to_keep))
      else if char_edit = ''D*'' then
        apply_char_edits_from sw (Suc i) rest (idx + apply_delete_star (drop idx sw) rest)
          edited_subword
      else if prefix ''R'' char_edit then
        apply_char_edits_from sw (Suc i) rest (idx + 1)
          (edited_subword @ sub_bracket (CHR ''R'') char_edit)
      else apply_char_edits_from sw (Suc i) rest idx edited_subword)"

definition apply_char_edits :: "string \<Rightarrow> string list \<Rightarrow> error + string" where
  "apply_char_edits sw char_edits = apply_char_edits_from sw 0 char_edits 0 []"

definition apply_append :: "string \<Rightarrow> string \<Rightarrow> bool \<Rightarrow> string" where
  "apply_append e sw keep =
     (let ops = findall append_re e;
          inserts = map (sub_bracket (CHR ''A'')) ops
      in if keep then sw @ '' '' @ join '' '' inserts else concat inserts)"

text \<open>\<open>SubwordEdit.apply(self, subword)\<close>; \<open>apply\<close> is a keyword of Isabelle.\<close>

definition SubwordEdit_apply :: "SubwordEdit \<Rightarrow> string \<Rightarrow> error + string" where
  "SubwordEdit_apply self sw =
     (if subword_edit self = ''K'' then Inr sw
      else if prefix ''KA'' (subword_edit self) then Inr (apply_append (subword_edit self) sw True)
      else if prefix ''DA'' (subword_edit self) then Inr (apply_append (subword_edit self) sw False)
      else (let sw' = remove_hashes sw;
                char_edits = findall char_edit_re (subword_edit self)
            in case apply_char_edits sw' char_edits of
                 Inl e \<Rightarrow> Inl e
               | Inr edited_subword \<Rightarrow>
                   Inr (if sublist ''##'' sw then ''##'' @ edited_subword else edited_subword)))"

text \<open>
  The loop of \<open>is_applicable\<close> over \<open>char_edits_wo_append_merge[i:]\<close>; it returns the final
  \<open>idx\<close>.  The test \<open>i == len(...) - 1\<close> is that the tail is empty, and \<open>break\<close> ends the loop.
\<close>

fun applicable_walk :: "string \<Rightarrow> string list \<Rightarrow> nat \<Rightarrow> nat" where
  "applicable_walk sw [] idx = idx"
| "applicable_walk sw (e # rest) idx =
     (if prefix ''R'' e \<or> e = ''K'' \<or> e = ''D'' then applicable_walk sw rest (idx + 1)
      else if e = ''K*'' \<or> e = ''D*'' then
        (if rest = [] then idx + length (drop idx sw)
         else applicable_walk sw rest (length (take (length sw - length rest) sw)))
      else applicable_walk sw rest idx)"

definition wo_append_merge :: "string list \<Rightarrow> string list" where
  "wo_append_merge char_edits =
     filter (\<lambda>e. \<not> prefix ''A'' e \<and> \<not> prefix ''M'' e \<and> \<not> prefix ''I'' e) char_edits"

definition is_applicable :: "SubwordEdit \<Rightarrow> string \<Rightarrow> bool" where
  "is_applicable self sw =
     (let sw' = remove_hashes sw;
          char_edits = findall char_edit_re (subword_edit self);
          char_edits_wo_append_merge = wo_append_merge char_edits
      in if subword_edit self = ''K'' \<or> prefix ''KA'' (subword_edit self) then True
         else if length sw' < length char_edits_wo_append_merge then False
         else if applicable_walk sw' char_edits_wo_append_merge 0 < length sw' then False
         else True)"

section \<open>The Subword Projector: class SubwordEdits\<close>

record SubwordEdits =
  subwords :: "string list"
  edits :: "SubwordEdit list"

text \<open>
  The \<open>while subword_len > 0\<close> loop of \<open>_project_edit\<close> for one piece.  The state is the cursor
  \<open>idx\<close>, the list \<open>subword_edits\<close> (here \<open>sw_edits\<close>), the tag \<open>subword_edit\<close> of the piece being
  read (here \<open>cur\<close>) and the lists \<open>inserts\<close> and \<open>replaces\<close>.  \<open>subword_edits[-1]\<close> on the empty
  list and \<open>pop(0)\<close> from the empty list raise IndexError.
\<close>

function project_while ::
  "string \<Rightarrow> nat \<Rightarrow> nat \<Rightarrow> string list \<Rightarrow> string \<Rightarrow> string list \<Rightarrow> string list
     \<Rightarrow> error + (nat \<times> string list \<times> string \<times> string list \<times> string list)" where
  "project_while e subword_len idx sw_edits cur inserts replaces =
     (if subword_len = 0 then Inr (idx, sw_edits, cur, inserts, replaces)
      else if idx \<ge> length e then Inl Breakpoint
      else if e ! idx = CHR ''S'' then
        (if sw_edits = [] then Inl IndexError
         else project_while e subword_len (idx + 1)
                (butlast sw_edits @ [last sw_edits @ cur]) [] inserts replaces)
      else if e ! idx = CHR ''I'' then
        (case inserts of
           [] \<Rightarrow> Inl IndexError
         | op # inserts' \<Rightarrow>
             project_while e subword_len (idx + length op) sw_edits (cur @ op) inserts' replaces)
      else if e ! idx = CHR ''R'' then
        (case replaces of
           [] \<Rightarrow> Inl IndexError
         | op # replaces' \<Rightarrow>
             project_while e (subword_len - 1) (idx + length op) sw_edits (cur @ op) inserts replaces')
      else if e ! idx = CHR ''M'' then
        (if cur \<noteq> [] \<and> sw_edits = [] then Inl IndexError
         else project_while e subword_len (idx + 1)
                (if cur \<noteq> [] then butlast sw_edits @ [last sw_edits @ cur] else sw_edits)
                [e ! idx] inserts replaces)
      else if e ! idx \<noteq> CHR ''K'' \<and> e ! idx \<noteq> CHR ''D'' then Inl Breakpoint
      else project_while e (subword_len - 1) (idx + 1) sw_edits (cur @ [e ! idx]) inserts replaces)"
  by pat_completeness auto
termination
  by (relation "measures [\<lambda>(e, subword_len, idx, sw_edits, cur, inserts, replaces). length e - idx,
                          \<lambda>(e, subword_len, idx, sw_edits, cur, inserts, replaces).
                             length inserts + length replaces + subword_len]") auto

declare project_while.simps [simp del]

text \<open>The \<open>for subword in subwords\<close> loop of \<open>_project_edit\<close>.\<close>

fun project_pieces ::
  "string \<Rightarrow> string list \<Rightarrow> nat \<Rightarrow> string list \<Rightarrow> string list \<Rightarrow> string list
     \<Rightarrow> error + (nat \<times> string list)" where
  "project_pieces e [] idx sw_edits inserts replaces = Inr (idx, sw_edits)"
| "project_pieces e (sw # sws) idx sw_edits inserts replaces =
     (case project_while e (length (remove_hashes sw)) idx sw_edits [] inserts replaces of
        Inl err \<Rightarrow> Inl err
      | Inr (idx', sw_edits', cur, inserts', replaces') \<Rightarrow>
          project_pieces e sws idx' (sw_edits' @ [cur]) inserts' replaces')"

text \<open>
  \<open>_project_edit\<close> up to its two assertions: the per-piece tags before they are compressed.
\<close>

definition project_raw :: "string list \<Rightarrow> string list \<Rightarrow> string \<Rightarrow> error + string list" where
  "project_raw sws raws e =
     (let edit_ops = findall project_re e;
          inserts = filter (prefix ''I_['') edit_ops;
          replaces = filter (prefix ''R_['') edit_ops
      in case project_pieces e sws 0 [] inserts replaces of
           Inl err \<Rightarrow> Inl err
         | Inr (idx, sw_edits) \<Rightarrow>
             if idx < length e \<and> sw_edits = [] then Inl IndexError
             else (let sw_edits' = (if idx < length e
                                    then butlast sw_edits @ [last sw_edits @ drop idx e]
                                    else sw_edits)
                   in if concat sw_edits' \<noteq> strip_soft_keep None e then Inl AssertionError
                      else if \<not> (length sw_edits' = length sws \<and> length sws = length raws)
                        then Inl AssertionError
                      else Inr sw_edits'))"

definition project_edit :: "string list \<Rightarrow> string list \<Rightarrow> string \<Rightarrow> error + SubwordEdit list" where
  "project_edit sws raws e =
     (case project_raw sws raws e of
        Inl err \<Rightarrow> Inl err
      | Inr sw_edits \<Rightarrow>
          Inr (map (\<lambda>(sw, raw, ed). \<lparr>subword = sw, raw_subword = raw, subword_edit = compress_edit ed\<rparr>)
                   (zip sws (zip raws sw_edits))))"

text \<open>
  \<open>SubwordEdits.create\<close>.  The tokenizer is a collaborator: \<open>None\<close> is the default, \<open>Some tokenize\<close>
  an object whose \<open>tokenize\<close> returns the raw and the normalized pieces, nested per word.
\<close>

definition SubwordEdits_create ::
  "(string \<Rightarrow> string list list \<times> string list list) option \<Rightarrow> string \<Rightarrow> string
     \<Rightarrow> error + SubwordEdits" where
  "SubwordEdits_create tokenizer aligned_src_word e =
     (let (sws, raws) =
            (case tokenizer of
               Some tokenize \<Rightarrow>
                 (case tokenize aligned_src_word of (raw, normalized) \<Rightarrow> (concat normalized, concat raw))
             | None \<Rightarrow> (split aligned_src_word, split aligned_src_word))
      in if length sws \<noteq> length raws then Inl AssertionError
         else if length sws = 0 \<and> prefix ''I'' e
           then Inr \<lparr>subwords = sws,
                     edits = [\<lparr>subword = [], raw_subword = [], subword_edit = compress_edit e\<rparr>]\<rparr>
         else if e = ''K''
           then Inr \<lparr>subwords = sws,
                     edits = map (\<lambda>(sw, raw). \<lparr>subword = sw, raw_subword = raw, subword_edit = ''K''\<rparr>)
                                 (zip sws raws)\<rparr>
         else (case project_edit sws raws e of
                 Inl err \<Rightarrow> Inl err
               | Inr subword_edits \<Rightarrow>
                   (let sws' = filter (\<lambda>wp. wp \<noteq> '' '') sws
                    in if length sws' \<noteq> length subword_edits then Inl AssertionError
                       else Inr \<lparr>subwords = sws', edits = subword_edits\<rparr>)))"

section \<open>Sentence post-processing: postprocess.py\<close>

text \<open>
  \<open>editdistance.distance\<close> of the library \<open>editdistance\<close>: the Levenshtein distance of two
  sequences, by its recurrence.
\<close>

fun distance :: "'a list \<Rightarrow> 'a list \<Rightarrow> nat" where
  "distance [] ys = length ys"
| "distance (x # xs) [] = length (x # xs)"
| "distance (x # xs) (y # ys) =
     min (min (distance xs (y # ys) + 1) (distance (x # xs) ys + 1))
         (distance xs ys + (if x = y then 0 else 1))"

text \<open>
  The character classes of postprocess.py are parameters: \<open>puncs\<close> is built from the charset
  \<open>UNICODE_PUNCT_SYMBOL_CHARSET\<close> of camel_tools, \<open>is_digit\<close> is the class \<open>\d\<close> and
  \<open>digit_mapper\<close> the table \<open>DIGIT_MAPPER\<close>.
\<close>

definition norm_digits :: "(char \<Rightarrow> bool) \<Rightarrow> (char \<rightharpoonup> char) \<Rightarrow> string \<Rightarrow> string" where
  "norm_digits is_digit digit_mapper s =
     (let r = (if list_ex is_digit s
               then map (\<lambda>c. case digit_mapper c of Some d \<Rightarrow> d | None \<Rightarrow> c) s
               else [])
      in if r \<noteq> [] then r else s)"

text \<open>\<open>pnx_re.sub(r' \1 ', line)\<close> for \<open>pnx_re = ([puncs])(?!\d)\<close>.\<close>

fun pnx_sub :: "string \<Rightarrow> (char \<Rightarrow> bool) \<Rightarrow> string \<Rightarrow> string" where
  "pnx_sub puncs is_digit [] = []"
| "pnx_sub puncs is_digit (c # cs) =
     (if c \<in> set puncs \<and> (case cs of [] \<Rightarrow> True | d # ds \<Rightarrow> \<not> is_digit d)
      then '' '' @ [c] @ '' '' @ pnx_sub puncs is_digit cs
      else c # pnx_sub puncs is_digit cs)"

text \<open>\<open>space_re.sub(' ', line)\<close> for \<open>space_re = ' +'\<close>; \<open>in_run\<close> says that a space came just before.\<close>

fun space_sub :: "bool \<Rightarrow> string \<Rightarrow> string" where
  "space_sub in_run [] = []"
| "space_sub in_run (c # cs) =
     (if c = CHR '' '' then (if in_run then space_sub True cs else c # space_sub True cs)
      else c # space_sub False cs)"

definition pnx_tokenize ::
  "string \<Rightarrow> (char \<Rightarrow> bool) \<Rightarrow> (char \<rightharpoonup> char) \<Rightarrow> string list \<Rightarrow> string list" where
  "pnx_tokenize puncs is_digit digit_mapper data =
     map (\<lambda>line. strip (norm_digits is_digit digit_mapper
                          (space_sub False (pnx_sub puncs is_digit (strip line))))) data"

text \<open>\<open>postprocess\<close>: its result \<open>post_process_out\<close>; the printing is left out.\<close>

definition postprocess ::
  "string \<Rightarrow> (char \<Rightarrow> bool) \<Rightarrow> (char \<rightharpoonup> char) \<Rightarrow> string list \<Rightarrow> string list \<Rightarrow> int
     \<Rightarrow> error + string list" where
  "postprocess puncs is_digit digit_mapper src_sents preds_sents gamma =
     (let preds_sents' = pnx_tokenize puncs is_digit digit_mapper preds_sents
      in if length src_sents \<noteq> length preds_sents' then Inl AssertionError
         else Inr (map (\<lambda>(src_sent, pred_sent).
                          if int (distance src_sent pred_sent) \<ge> gamma then src_sent else pred_sent)
                       (zip src_sents preds_sents')))"

section \<open>Notions used to state the properties\<close>

text \<open>The tag that keeps the source characters occurring in the target and deletes the others.\<close>

definition keep_delete_tag :: "string \<Rightarrow> string \<Rightarrow> string" where
  "keep_delete_tag src_chars tgt_chars =
     map (\<lambda>c. if c \<in> set tgt_chars then CHR ''K'' else CHR ''D'') src_chars"

definition non_spaces :: "string \<Rightarrow> nat" where
  "non_spaces s = length (filter (\<lambda>c. c \<noteq> CHR '' '') s)"

text \<open>
  An op of the token list of \<open>apply\<close> is an insertion or an append when it starts with \<open>I\<close> or
  \<open>A\<close>; \<open>fixed_ops\<close> counts the others, and \<open>star_run\<close> is the run of a \<open>K*\<close> or \<open>D*\<close> in front of
  the ops \<open>rest\<close>, with \<open>remaining\<close> the characters of the piece not read yet.
\<close>

definition is_insert :: "string \<Rightarrow> bool" where
  "is_insert x = (prefix ''I'' x \<or> prefix ''A'' x)"

definition fixed_ops :: "string list \<Rightarrow> nat" where
  "fixed_ops char_edits = length (filter (\<lambda>x. \<not> is_insert x) char_edits)"

definition star_run :: "string \<Rightarrow> string list \<Rightarrow> string" where
  "star_run remaining rest =
     (if list_all is_insert rest then remaining
      else take (length remaining - fixed_ops rest) remaining)"

text \<open>
  The tag grammar: a well-formed tag is the concatenation of ops, each of them \<open>K\<close>, \<open>D\<close>, \<open>S\<close>,
  \<open>M\<close>, \<open>K*\<close>, \<open>D*\<close>, \<open>I_[text]\<close>, \<open>R_[text]\<close> or \<open>A_[text]\<close>.  The text of an op is well
  formed when it contains neither \<open>]\<close> nor a newline.
\<close>

datatype op = Keep | Delete | SoftKeep | Merge | KeepRun | DeleteRun
  | Insert string | Replace string | Append string

definition app :: "string \<Rightarrow> string" where
  "app p = ''A_['' @ p @ '']''"

fun render_op :: "op \<Rightarrow> string" where
  "render_op Keep = ''K''"
| "render_op Delete = ''D''"
| "render_op SoftKeep = ''S''"
| "render_op Merge = ''M''"
| "render_op KeepRun = ''K*''"
| "render_op DeleteRun = ''D*''"
| "render_op (Insert p) = ins p"
| "render_op (Replace p) = rep p"
| "render_op (Append p) = app p"

definition render :: "op list \<Rightarrow> string" where
  "render ops = concat (map render_op ops)"

definition payload_ok :: "string \<Rightarrow> bool" where
  "payload_ok p = (CHR '']'' \<notin> set p \<and> NL \<notin> set p)"

fun op_ok :: "op \<Rightarrow> bool" where
  "op_ok (Insert p) = payload_ok p"
| "op_ok (Replace p) = payload_ok p"
| "op_ok (Append p) = payload_ok p"
| "op_ok _ = True"

fun is_append :: "op \<Rightarrow> bool" where
  "is_append (Append p) = True"
| "is_append _ = False"

fun is_ins :: "op \<Rightarrow> bool" where
  "is_ins (Insert p) = True"
| "is_ins _ = False"

text \<open>A text that can follow an op: it is empty or starts with neither \<open>]\<close> nor \<open>*\<close>.\<close>

definition op_start :: "string \<Rightarrow> bool" where
  "op_start s = (case s of [] \<Rightarrow> True | c # cs \<Rightarrow> c \<noteq> CHR '']'' \<and> c \<noteq> CHR ''*'')"

text \<open>
  Compression on the ops: every run of insertions becomes one insertion of the joined texts,
  and an insertion of the empty text disappears; \<open>pend\<close> is the text of the run being read.
\<close>

fun merge_insertions :: "op list \<Rightarrow> string \<Rightarrow> op list" where
  "merge_insertions [] pend = (if pend \<noteq> [] then [Insert pend] else [])"
| "merge_insertions (Insert p # ops) pend = merge_insertions ops (pend @ p)"
| "merge_insertions (x # ops) pend =
     (if pend \<noteq> [] then [Insert pend] else []) @ x # merge_insertions ops []"

text \<open>The text that \<open>compress_insertions\<close> still adds to \<open>_edits\<close>, and the flushed insertion.\<close>

definition compressed_text :: "string list \<Rightarrow> string \<Rightarrow> string" where
  "compressed_text toks pend = concat (compress_insertions_loop toks [] pend)"

definition flush :: "string \<Rightarrow> string" where
  "flush pend = (if pend \<noteq> [] then ins pend else [])"

text \<open>
  The encoder on ops: the ops whose concatenation \<open>get_edits\<close>, \<open>_replacments\<close>, the loop body of
  \<open>_generate_detailed_edit\<close> and the loop itself return, branch by branch.
\<close>

fun scan_ops :: "string \<Rightarrow> string \<Rightarrow> op list" where
  "scan_ops [] ts = []"
| "scan_ops (c # cs) [] = []"
| "scan_ops (c # cs) (t # ts) =
     (if c \<noteq> CHR '' '' then Replace [t] # scan_ops cs ts else Merge # scan_ops cs (t # ts))"

definition get_edits_ops :: "string \<Rightarrow> string \<Rightarrow> op list" where
  "get_edits_ops src_chars tgt_chars =
     (if tgt_chars = [] then replicate (length src_chars) Delete
      else if sublist tgt_chars src_chars
        then map (\<lambda>c. if c \<notin> set tgt_chars then Delete else Keep) src_chars
      else if length (strip src_chars) = 1 \<and> length tgt_chars = 1
        then map (\<lambda>c. if c = CHR '' '' then Merge else Replace [hd tgt_chars]) src_chars
      else (case replace_scan src_chars tgt_chars of
              (e, src_rest, tgt_rest) \<Rightarrow>
                scan_ops src_chars tgt_chars @ replicate (length src_rest) Delete))"

definition replacments_ops :: "string \<Rightarrow> string \<Rightarrow> op list" where
  "replacments_ops src_chars tgt_chars =
     (if length tgt_chars = 1 then [Replace tgt_chars]
      else if length src_chars = length tgt_chars
        then concat (map (\<lambda>(s, t). if s = CHR '' '' then [Merge, Insert [t]] else [Replace [t]])
                         (zip src_chars tgt_chars))
      else map (\<lambda>t. Replace [t]) (take (length src_chars) tgt_chars) @
           map (\<lambda>t. Insert [t]) (drop (length src_chars) tgt_chars))"

definition group_ops :: "string \<Rightarrow> string \<Rightarrow> op list" where
  "group_ops src_chars tgt_chars =
     (if src_chars = tgt_chars
        then (if src_chars = '' '' then [SoftKeep] else replicate (length src_chars) Keep)
      else if src_chars = '' '' \<and> tgt_chars = [] then [Merge]
      else if src_chars = '' '' \<and> tgt_chars \<noteq> [] then [Merge, Insert tgt_chars]
      else if src_chars \<noteq> [] \<and> tgt_chars = []
        then map (\<lambda>c. if c \<noteq> CHR '' '' then Delete else Merge) src_chars
      else if src_chars = [] \<and> tgt_chars \<noteq> [] then [Insert tgt_chars]
      else if length src_chars > length tgt_chars then get_edits_ops src_chars tgt_chars
      else replacments_ops src_chars tgt_chars)"

definition detailed_ops :: "string list \<Rightarrow> string list \<Rightarrow> op list" where
  "detailed_ops aligned_src_chars aligned_tgt_chars =
     concat (map (\<lambda>(s, t). group_ops s t) (zip aligned_src_chars aligned_tgt_chars))"

text \<open>
  The source characters an op accounts for, and the tokens of \<open>apply\<close> that account for one.
\<close>

fun width :: "op \<Rightarrow> nat" where
  "width Keep = 1"
| "width Delete = 1"
| "width SoftKeep = 1"
| "width Merge = 1"
| "width (Replace p) = 1"
| "width _ = 0"

definition consumed :: "op list \<Rightarrow> nat" where
  "consumed ops = sum_list (map width ops)"

definition consumes_one :: "string \<Rightarrow> bool" where
  "consumes_one tok =
     (tok = ''K'' \<or> tok = ''D'' \<or> tok = ''S'' \<or> tok = ''M'' \<or> prefix ''R_['' tok)"

text \<open>
  Ops without a space marker, a run or an append, and the text they give on the characters
  \<open>s\<close>: \<open>K\<close> copies one, \<open>D\<close> skips one, \<open>I_[p]\<close> gives \<open>p\<close>, \<open>R_[p]\<close> gives \<open>p\<close> for one.
\<close>

fun simple :: "op \<Rightarrow> bool" where
  "simple Keep = True"
| "simple Delete = True"
| "simple (Insert p) = True"
| "simple (Replace p) = True"
| "simple _ = False"

fun emitted :: "op list \<Rightarrow> string \<Rightarrow> string" where
  "emitted [] s = []"
| "emitted (Keep # ops) s = take 1 s @ emitted ops (drop 1 s)"
| "emitted (Delete # ops) s = emitted ops (drop 1 s)"
| "emitted (Insert p # ops) s = p @ emitted ops s"
| "emitted (Replace p # ops) s = p @ emitted ops (drop 1 s)"
| "emitted (x # ops) s = emitted ops s"

text \<open>
  Ops other than the run operators, and the characters of the piece that the loop of \<open>apply\<close>
  reads at an op: one at \<open>K\<close>, \<open>D\<close> and \<open>R_[p]\<close>, none at \<open>S\<close>, \<open>M\<close>, \<open>I_[p]\<close> and \<open>A_[p]\<close>.
  Behind the first op of a tag an append \<open>A_[p]\<close> adds a space and \<open>p\<close>, as an insertion of
  that text does.
\<close>

fun plain :: "op \<Rightarrow> bool" where
  "plain KeepRun = False"
| "plain DeleteRun = False"
| "plain _ = True"

fun reads :: "op \<Rightarrow> nat" where
  "reads Keep = 1"
| "reads Delete = 1"
| "reads (Replace p) = 1"
| "reads _ = 0"

definition read_chars :: "op list \<Rightarrow> nat" where
  "read_chars ops = sum_list (map reads ops)"

fun as_insertion :: "op \<Rightarrow> op" where
  "as_insertion (Append p) = Insert ('' '' @ p)"
| "as_insertion x = x"

text \<open>
  Where the target group is a non-empty substring of a longer source group, the source
  characters that occur in the target spell the target.
\<close>

definition contained_ok :: "string \<Rightarrow> string \<Rightarrow> bool" where
  "contained_ok s t =
     (length t < length s \<and> t \<noteq> [] \<and> sublist t s \<longrightarrow> filter (\<lambda>c. c \<in> set t) s = t)"

text \<open>The tokenization of \<open>SubwordEdits.create\<close>: the normalized and the raw pieces, flattened.\<close>

definition pieces ::
  "(string \<Rightarrow> string list list \<times> string list list) option \<Rightarrow> string \<Rightarrow> string list \<times> string list" where
  "pieces tokenizer aligned_src_word =
     (case tokenizer of
        Some tokenize \<Rightarrow>
          (case tokenize aligned_src_word of (raw, normalized) \<Rightarrow> (concat normalized, concat raw))
      | None \<Rightarrow> (split aligned_src_word, split aligned_src_word))"

text \<open>The replacements among the ops.\<close>

fun is_rep :: "op \<Rightarrow> bool" where
  "is_rep (Replace p) = True"
| "is_rep _ = False"

text \<open>The ops that the projection gives a piece of budget n: up to the n-th op that consumes.\<close>

fun take_ops :: "nat \<Rightarrow> op list \<Rightarrow> op list" where
  "take_ops 0 ops = []"
| "take_ops (Suc n) [] = []"
| "take_ops (Suc n) (x # ops) = x # take_ops (Suc n - width x) ops"

fun chunks :: "nat list \<Rightarrow> op list \<Rightarrow> op list list" where
  "chunks [] ops = []"
| "chunks (n # ns) ops = take_ops n ops # chunks ns (drop (length (take_ops n ops)) ops)"

text \<open>The budget of a piece: its length without the continuation markers.\<close>

definition budget :: "string \<Rightarrow> nat" where
  "budget sw = length (remove_hashes sw)"

section \<open>The shrinking-replace procedure get_edits\<close>

lemma replace_scan_tgt_rest:
  "replace_scan src tgt = (e, src_rest, tgt_rest) \<Longrightarrow>
     (tgt_rest = [] \<longleftrightarrow> length tgt \<le> non_spaces src)"
  by (induction src tgt arbitrary: e src_rest tgt_rest rule: replace_scan.induct)
     (auto simp: non_spaces_def split: if_splits prod.splits)

text \<open>
  C5, as the code has it: \<open>tgt_chars in src_chars\<close> is the substring test of Python.  Whenever
  \<open>get_edits\<close> is called with a non-empty target that is a contiguous substring of the source,
  it returns the tag that keeps every source character occurring in the target and deletes
  every other source character.
\<close>

theorem get_edits_contained:
  assumes "tgt_chars \<noteq> []" and "sublist tgt_chars src_chars"
  shows "get_edits src_chars tgt_chars = Inr (keep_delete_tag src_chars tgt_chars)"
  using assms by (simp add: get_edits_def keep_delete_tag_def)

theorem get_edits_contained_witness:
  "get_edits ''aba'' ''ab'' = Inr ''KKK''"
proof -
  have "sublist ''ab'' ''aba''" by (simp add: sublist_code)
  from get_edits_contained [OF _ this] show ?thesis by (simp add: keep_delete_tag_def)
qed

text \<open>
  C5 as stated (containment by set) fails: every character of \<open>ca\<close> occurs in \<open>abc\<close>, but \<open>ca\<close>
  is not a substring of it, and the tag is \<open>R_[c]R_[a]D\<close>, not \<open>KDK\<close>.
\<close>

theorem get_edits_set_contained_counterexample:
  "''ca'' \<noteq> [] \<and> set ''ca'' \<subseteq> set ''abc'' \<and>
   get_edits ''abc'' ''ca'' \<noteq> Inr (keep_delete_tag ''abc'' ''ca'')"
  by (simp add: get_edits_def keep_delete_tag_def sublist_code strip_def isspace_def rep_def)

text \<open>
  C4, as the code has it: in the general fallback of \<open>get_edits\<close> (target not empty, not a
  substring of the source, and not the single-character case) the target cursor reaches the end
  of the target, so that the assertion holds, exactly when the source has at least as many
  non-space characters as the target has characters; with fewer the assertion fails.
\<close>

theorem get_edits_fallback_assertion:
  assumes "tgt_chars \<noteq> []" and "\<not> sublist tgt_chars src_chars"
    and "\<not> (length (strip src_chars) = 1 \<and> length tgt_chars = 1)"
  shows "get_edits src_chars tgt_chars = Inl AssertionError \<longleftrightarrow>
           non_spaces src_chars < length tgt_chars"
proof -
  obtain e src_rest tgt_rest where s: "replace_scan src_chars tgt_chars = (e, src_rest, tgt_rest)"
    by (cases "replace_scan src_chars tgt_chars") auto
  from replace_scan_tgt_rest [OF s] assms s show ?thesis
    by (auto simp: get_edits_def)
qed

theorem get_edits_fallback_assertion_witness:
  "get_edits ''abcd'' ''xy'' \<noteq> Inl AssertionError \<and> get_edits '' a '' ''xy'' = Inl AssertionError"
proof -
  have a: "\<not> sublist ''xy'' ''abcd''" "\<not> sublist ''xy'' '' a ''" by (simp_all add: sublist_code)
  have b: "\<not> (length (strip ''abcd'') = 1 \<and> length ''xy'' = 1)"
     "\<not> (length (strip '' a '') = 1 \<and> length ''xy'' = 1)" by simp_all
  from get_edits_fallback_assertion [OF _ a(1) b(1)] get_edits_fallback_assertion [OF _ a(2) b(2)]
  show ?thesis by (simp add: non_spaces_def)
qed

text \<open>
  C4 as stated fails: the source \<open>a\<close> followed by two spaces is longer than the target \<open>xy\<close>,
  none of the earlier branches is taken, and the assertion fails.
\<close>

theorem get_edits_fallback_counterexample:
  "length ''xy'' < length ''a  '' \<and> ''xy'' \<noteq> [] \<and> \<not> sublist ''xy'' ''a  '' \<and>
   \<not> (length (strip ''a  '') = 1 \<and> length ''xy'' = 1) \<and>
   get_edits ''a  '' ''xy'' = Inl AssertionError"
  by (simp add: get_edits_def sublist_code strip_def isspace_def rep_def)

section \<open>The run of a run operator\<close>

lemma length_inserts: "length (filter is_insert xs) + fixed_ops xs = length xs"
  by (simp add: fixed_ops_def sum_length_filter_compl)

lemma all_inserts_iff: "length (filter is_insert xs) = length xs \<longleftrightarrow> list_all is_insert xs"
proof
  assume "list_all is_insert xs"
  then have "filter is_insert xs = xs" by (simp add: list_all_iff)
  then show "length (filter is_insert xs) = length xs" by simp
next
  assume l: "length (filter is_insert xs) = length xs"
  show "list_all is_insert xs"
  proof (rule ccontr)
    assume "\<not> list_all is_insert xs"
    then obtain x where "x \<in> set xs" "\<not> is_insert x" by (auto simp: list_all_iff)
    then have "length (filter is_insert xs) < length xs" by (rule length_filter_less)
    with l show False by simp
  qed
qed

lemma apply_keep_star_run: "apply_keep_star remaining rest = star_run remaining rest"
proof -
  have f: "filter (\<lambda>x. prefix ''I'' x \<or> prefix ''A'' x) rest = filter is_insert rest"
    by (simp add: is_insert_def [abs_def])
  have "length rest - length (filter is_insert rest) = fixed_ops rest"
    using length_inserts [of rest] by simp
  then show ?thesis
    by (simp add: apply_keep_star_def star_run_def Let_def f all_inserts_iff)
qed

section \<open>The edit-distance gate of postprocess\<close>

text \<open>
  C8, as the code has it: for each aligned pair of a source sentence and a prediction,
  \<open>postprocess\<close> outputs the source sentence exactly when the edit distance between the source
  and the punctuation-tokenized prediction is at least \<open>gamma\<close>, and the punctuation-tokenized
  prediction otherwise.
\<close>

theorem postprocess_gate:
  assumes "length src_sents = length preds_sents" and "i < length src_sents"
  shows "\<exists>out. postprocess puncs is_digit digit_mapper src_sents preds_sents gamma = Inr out \<and>
           length out = length src_sents \<and>
           out ! i =
             (if gamma \<le> int (distance (src_sents ! i)
                                 (pnx_tokenize puncs is_digit digit_mapper preds_sents ! i))
              then src_sents ! i
              else pnx_tokenize puncs is_digit digit_mapper preds_sents ! i)"
proof -
  have l: "length (pnx_tokenize puncs is_digit digit_mapper preds_sents) = length preds_sents"
    by (simp add: pnx_tokenize_def)
  show ?thesis using assms l by (simp add: postprocess_def Let_def)
qed

theorem postprocess_gate_witness:
  "postprocess ''.'' (\<lambda>c. False) Map.empty [''a .'', ''cat''] [''b.'', ''cat''] 1
     = Inr [''a .'', ''cat'']"
  using postprocess_gate [of "[''a .'', ''cat'']" "[''b.'', ''cat'']" 0 "''.''" "\<lambda>c. False" Map.empty 1]
    postprocess_gate [of "[''a .'', ''cat'']" "[''b.'', ''cat'']" 1 "''.''" "\<lambda>c. False" Map.empty 1]
  by (auto simp: pnx_tokenize_def strip_def isspace_def norm_digits_def nth_Cons' length_Suc_conv)

text \<open>
  C8 as stated (the distance exceeds \<open>gamma\<close>) fails at a distance equal to \<open>gamma\<close>: the
  distance of \<open>a\<close> and \<open>b\<close> is 1, which does not exceed \<open>gamma = 1\<close>, and the source is output.
\<close>

theorem postprocess_gate_counterexample:
  "postprocess [] (\<lambda>c. False) Map.empty [''a''] [''b''] 1 = Inr [''a''] \<and>
   pnx_tokenize [] (\<lambda>c. False) Map.empty [''b''] = [''b''] \<and>
   \<not> 1 < int (distance ''a'' ''b'')"
  by (simp add: postprocess_def pnx_tokenize_def strip_def isspace_def norm_digits_def)

section \<open>Well-formed tags and their tokens\<close>

lemma NL_simps [simp]: "NL \<noteq> CHR ''K''" "NL \<noteq> CHR ''D''" "NL \<noteq> CHR ''S''" "NL \<noteq> CHR ''M''"
  "NL \<noteq> CHR ''I''" "NL \<noteq> CHR ''R''" "NL \<noteq> CHR ''A''" "NL \<noteq> CHR ''*''" "NL \<noteq> CHR ''_''"
  "NL \<noteq> CHR ''[''" "NL \<noteq> CHR '']''"
  "CHR ''K'' \<noteq> NL" "CHR ''D'' \<noteq> NL" "CHR ''S'' \<noteq> NL" "CHR ''M'' \<noteq> NL"
  "CHR ''I'' \<noteq> NL" "CHR ''R'' \<noteq> NL" "CHR ''A'' \<noteq> NL" "CHR ''*'' \<noteq> NL"
  "CHR ''_'' \<noteq> NL" "CHR ''['' \<noteq> NL" "CHR '']'' \<noteq> NL"
  by (simp_all add: NL_def)

lemma lazy_len_payload: "payload_ok p \<Longrightarrow> lazy_len (p @ CHR '']'' # rest) = Some (length p)"
  by (induction p) (auto simp: payload_ok_def)

lemma bracket_op_match:
  assumes "payload_ok p" and "op_start rest"
  shows "bracket_op x (x # ''_['' @ p @ '']'' @ rest) = Some (length p + 4)"
proof -
  have t: "takeWhile (\<lambda>c. c = CHR '']'') (CHR '']'' # rest) = '']''"
    using assms(2) by (cases rest) (auto simp: op_start_def)
  have d: "drop (3 + length p) (x # ''_['' @ p @ '']'' @ rest) = CHR '']'' # rest"
    by (simp add: numeral_3_eq_3)
  have "bracket_op x (x # ''_['' @ p @ '']'' @ rest)
          = Some (3 + length p + length (takeWhile (\<lambda>c. c = CHR '']'') (CHR '']'' # rest)))"
    unfolding bracket_op_def d [symmetric]
    using lazy_len_payload [OF assms(1), of rest] by simp
  then show ?thesis unfolding t by simp
qed

lemma bracket_op_other: "c \<noteq> x \<Longrightarrow> bracket_op x (c # s) = None"
  by (simp add: bracket_op_def)

lemma findall_Nil [simp]: "findall re [] = []"
  by (simp add: findall.simps)

lemma findall_match:
  "re (tok @ rest) = Some (length tok) \<Longrightarrow> tok \<noteq> [] \<Longrightarrow>
     findall re (tok @ rest) = tok # findall re rest"
  by (subst findall.simps) (auto simp: max_def Suc_le_eq)

lemma char_edit_re_op:
  assumes "op_ok x" and "op_start rest"
  shows "char_edit_re (render_op x @ rest) = Some (length (render_op x))"
proof (cases x)
  case (Insert p)
  with assms show ?thesis
    using bracket_op_match [of p rest "CHR ''I''"] by (simp add: char_edit_re_def ins_def)
next
  case (Replace p)
  with assms show ?thesis
    using bracket_op_match [of p rest "CHR ''R''"]
    by (simp add: char_edit_re_def rep_def bracket_op_other)
next
  case (Append p)
  with assms show ?thesis
    using bracket_op_match [of p rest "CHR ''A''"]
    by (simp add: char_edit_re_def app_def bracket_op_other)
next
  case Keep
  with assms show ?thesis
    by (cases rest) (auto simp: char_edit_re_def bracket_op_other lit_def dot_def op_start_def)
next
  case Delete
  with assms show ?thesis
    by (cases rest) (auto simp: char_edit_re_def bracket_op_other lit_def dot_def op_start_def)
qed (auto simp: char_edit_re_def bracket_op_other lit_def dot_def)

lemma render_op_nonempty [simp]: "render_op x \<noteq> []"
  by (cases x) (auto simp: ins_def rep_def app_def)

lemma render_Nil [simp]: "render [] = []"
  by (simp add: render_def)

lemma render_Cons [simp]: "render (x # ops) = render_op x @ render ops"
  by (simp add: render_def)

lemma render_append [simp]: "render (xs @ ys) = render xs @ render ys"
  by (simp add: render_def)

lemma op_start_render_op: "op_start (render_op x @ s)"
  by (cases x) (auto simp: op_start_def ins_def rep_def app_def)

lemma op_start_render: "op_start (render ops)"
  by (cases ops) (auto simp: op_start_render_op, simp add: op_start_def)

lemma findall_render:
  "list_all op_ok ops \<Longrightarrow> findall char_edit_re (render ops) = map render_op ops"
proof (induction ops)
  case Nil
  then show ?case by simp
next
  case (Cons x ops)
  then have "char_edit_re (render_op x @ render ops) = Some (length (render_op x))"
    by (simp add: char_edit_re_op op_start_render)
  then have "findall char_edit_re (render_op x @ render ops)
               = render_op x # findall char_edit_re (render ops)"
    by (rule findall_match) simp
  with Cons show ?case by simp
qed

section \<open>Compression of well-formed tags\<close>

lemma concat_compress_loop:
  "concat (compress_insertions_loop toks acc pend) = concat acc @ compressed_text toks pend"
proof (induction toks arbitrary: acc pend)
  case Nil
  then show ?case by (simp add: compressed_text_def)
next
  case (Cons e es)
  show ?case
    using Cons [of "acc @ [ins pend] @ [e]" "[]"] Cons [of "[ins pend] @ [e]" "[]"]
      Cons [of "acc @ [e]" "[]"] Cons [of "[e]" "[]"] Cons [of acc "pend @ sub_bracket (CHR ''I'') e"]
    by (simp add: compressed_text_def)
qed

lemma compressed_text_Nil [simp]: "compressed_text [] pend = flush pend"
  by (simp add: compressed_text_def flush_def)

lemma compressed_text_insert:
  "prefix ''I_'' e \<Longrightarrow>
     compressed_text (e # es) pend = compressed_text es (pend @ sub_bracket (CHR ''I'') e)"
  by (simp add: compressed_text_def)

lemma compressed_text_other:
  "\<not> prefix ''I_'' e \<Longrightarrow> compressed_text (e # es) pend = flush pend @ e @ compressed_text es []"
  using concat_compress_loop [of es "[ins pend] @ [e]" "[]"] concat_compress_loop [of es "[e]" "[]"]
  by (simp add: compressed_text_def flush_def)

lemma compress_edit_text: "compress_edit e = compressed_text (findall compress_re e) []"
  by (simp add: compress_edit_def compress_insertions_def compressed_text_def)

lemma sub_bracket_Nil [simp]: "sub_bracket x [] = []"
  by (simp add: sub_bracket.simps)

lemma sub_bracket_payload:
  assumes "payload_ok p"
  shows "sub_bracket x (x # ''_['' @ p @ '']'') = p"
proof -
  have "lazy_len (p @ '']'') = Some (length p)"
    using lazy_len_payload [OF assms, of "[]"] by simp
  then show ?thesis by (subst sub_bracket.simps) simp
qed

lemma compress_re_bracket:
  assumes "payload_ok p" and "op_start rest" and "x = CHR ''I'' \<or> x = CHR ''R'' \<or> x = CHR ''A''"
  shows "compress_re (x # ''_['' @ p @ '']'' @ rest) = Some (length (x # ''_['' @ p @ '']''))"
  using assms bracket_op_match [of p rest x]
  by (auto simp: compress_re_def bracket_op_other)

lemma findall_compress_bracket:
  assumes "payload_ok p" and "op_start rest" and "x = CHR ''I'' \<or> x = CHR ''R'' \<or> x = CHR ''A''"
  shows "findall compress_re ((x # ''_['' @ p @ '']'') @ rest)
           = (x # ''_['' @ p @ '']'') # findall compress_re rest"
  by (rule findall_match) (use compress_re_bracket [OF assms] in simp_all)

lemma findall_compress_char:
  assumes "c \<noteq> CHR ''I''" "c \<noteq> CHR ''R''" "c \<noteq> CHR ''A''" "c \<noteq> CHR ''D''" "c \<noteq> CHR ''K''" "c \<noteq> NL"
  shows "findall compress_re (c # rest) = [c] # findall compress_re rest"
proof -
  have "compress_re ([c] @ rest) = Some (length [c])"
    using assms by (simp add: compress_re_def bracket_op_other plus_def dot_def)
  from findall_match [of compress_re "[c]" rest, OF this] show ?thesis by simp
qed

lemma findall_compress_run:
  assumes "c = CHR ''K'' \<or> c = CHR ''D''"
  shows "findall compress_re (c # rest)
           = (c # takeWhile (\<lambda>x. x = c) rest) # findall compress_re (dropWhile (\<lambda>x. x = c) rest)"
proof -
  let ?tok = "c # takeWhile (\<lambda>x. x = c) rest"
  have "compress_re (?tok @ dropWhile (\<lambda>x. x = c) rest) = Some (length ?tok)"
    using assms by (auto simp: compress_re_def bracket_op_other plus_def)
  from findall_match [of compress_re ?tok "dropWhile (\<lambda>x. x = c) rest", OF this]
  show ?thesis by simp
qed

lemma compressed_text_run:
  assumes "c = CHR ''K'' \<or> c = CHR ''D''"
  shows "compressed_text (findall compress_re (c # rest)) pend
           = flush pend @ [c] @ compressed_text (findall compress_re rest) []"
proof -
  from assms have ci: "c \<noteq> CHR ''I''" by auto
  show ?thesis
  proof (cases "prefix [c] rest")
    case True
    then obtain rest' where r: "rest = c # rest'" by (auto simp: prefix_def)
    show ?thesis
      unfolding r findall_compress_run [OF assms, of "c # rest'"]
        findall_compress_run [OF assms, of rest']
      using ci by (simp add: compressed_text_other flush_def)
  next
    case False
    then have "takeWhile (\<lambda>x. x = c) rest = []" "dropWhile (\<lambda>x. x = c) rest = rest"
      by (cases rest; auto)+
    then show ?thesis
      unfolding findall_compress_run [OF assms] using ci by (simp add: compressed_text_other)
  qed
qed

lemma compressed_text_char:
  assumes "c \<noteq> CHR ''I''" "c \<noteq> CHR ''R''" "c \<noteq> CHR ''A''" "c \<noteq> CHR ''D''" "c \<noteq> CHR ''K''" "c \<noteq> NL"
  shows "compressed_text (findall compress_re (c # rest)) pend
           = flush pend @ [c] @ compressed_text (findall compress_re rest) []"
  using assms by (simp add: findall_compress_char compressed_text_other)

lemma flush_render: "flush pend = render (if pend \<noteq> [] then [Insert pend] else [])"
  by (simp add: flush_def)

lemma compressed_text_render:
  "list_all op_ok ops \<Longrightarrow>
     compressed_text (findall compress_re (render ops)) pend = render (merge_insertions ops pend)"
proof (induction ops arbitrary: pend)
  case Nil
  then show ?case by (simp add: flush_def)
next
  case (Cons x ops)
  then have ok: "list_all op_ok ops" and okx: "op_ok x" by simp_all
  note IH = Cons.IH [OF ok]
  have st: "op_start (render ops)" by (rule op_start_render)
  show ?case
  proof (cases x)
    case (Insert p)
    with okx have p: "payload_ok p" by simp
    have "findall compress_re ((CHR ''I'' # ''_['' @ p @ '']'') @ render ops)
            = (CHR ''I'' # ''_['' @ p @ '']'') # findall compress_re (render ops)"
      by (rule findall_compress_bracket [OF p st]) simp
    then show ?thesis
      using Insert IH [of "pend @ p"] sub_bracket_payload [OF p, of "CHR ''I''"]
      by (simp add: ins_def compressed_text_insert)
  next
    case (Replace p)
    with okx have p: "payload_ok p" by simp
    have "findall compress_re ((CHR ''R'' # ''_['' @ p @ '']'') @ render ops)
            = (CHR ''R'' # ''_['' @ p @ '']'') # findall compress_re (render ops)"
      by (rule findall_compress_bracket [OF p st]) simp
    then show ?thesis
      using Replace IH [of "[]"]
      by (simp add: rep_def compressed_text_other flush_def)
  next
    case (Append p)
    with okx have p: "payload_ok p" by simp
    have "findall compress_re ((CHR ''A'' # ''_['' @ p @ '']'') @ render ops)
            = (CHR ''A'' # ''_['' @ p @ '']'') # findall compress_re (render ops)"
      by (rule findall_compress_bracket [OF p st]) simp
    then show ?thesis
      using Append IH [of "[]"]
      by (simp add: app_def compressed_text_other flush_def)
  next
    case Keep
    then show ?thesis using IH [of "[]"] by (simp add: compressed_text_run flush_def)
  next
    case Delete
    then show ?thesis using IH [of "[]"] by (simp add: compressed_text_run flush_def)
  next
    case SoftKeep
    then show ?thesis using IH [of "[]"] by (simp add: compressed_text_char flush_def)
  next
    case Merge
    then show ?thesis using IH [of "[]"] by (simp add: compressed_text_char flush_def)
  next
    case KeepRun
    then show ?thesis using IH [of "[]"]
      by (simp add: compressed_text_run compressed_text_char flush_def)
  next
    case DeleteRun
    then show ?thesis using IH [of "[]"]
      by (simp add: compressed_text_run compressed_text_char flush_def)
  qed
qed

lemma compress_edit_render:
  "list_all op_ok ops \<Longrightarrow> compress_edit (render ops) = render (merge_insertions ops [])"
  by (simp add: compress_edit_text compressed_text_render)

lemma merge_insertions_ok:
  "list_all op_ok ops \<Longrightarrow> payload_ok pend \<Longrightarrow> list_all op_ok (merge_insertions ops pend)"
  by (induction ops pend rule: merge_insertions.induct) (auto simp: payload_ok_def)

lemma merge_insertions_idem:
  "merge_insertions (merge_insertions ops pend) [] = merge_insertions ops pend"
  by (induction ops pend rule: merge_insertions.induct) auto

text \<open>
  C7, as the code has it: for every well-formed tag, a concatenation of ops of the grammar
  whose texts contain neither \<open>]\<close> nor a newline, compressing the compressed tag gives the
  compressed tag again.
\<close>

theorem compress_edit_idempotent:
  assumes "list_all op_ok ops"
  shows "compress_edit (compress_edit (render ops)) = compress_edit (render ops)"
proof -
  have "list_all op_ok (merge_insertions ops [])"
    by (rule merge_insertions_ok [OF assms]) (simp add: payload_ok_def)
  then show ?thesis
    by (simp add: compress_edit_render assms merge_insertions_idem)
qed

text \<open>
  C7 as stated (for every tag string) fails on a text with a \<open>]\<close>: the tag \<open>I_[]]I_[b]\<close>, which
  \<open>Edit.create\<close> builds for the two inserted groups \<open>]\<close> and \<open>b\<close>, is compressed to \<open>I_[]b]\<close>,
  and this to \<open>b]\<close>.
\<close>

theorem compress_edit_idempotent_counterexample:
  "compress_edit (compress_edit ''I_[]]I_[b]'') \<noteq> compress_edit ''I_[]]I_[b]''"
  by code_simp

theorem compress_edit_idempotent_witness:
  "compress_edit (compress_edit ''KI_[a]I_[b]R_[c]'') = compress_edit ''KI_[a]I_[b]R_[c]'' \<and>
   compress_edit ''KI_[a]I_[b]R_[c]'' = ''KI_[ab]R_[c]''"
proof -
  have "list_all op_ok [Keep, Insert ''a'', Insert ''b'', Replace ''c'']"
    by (simp add: payload_ok_def NL_def)
  from compress_edit_idempotent [OF this] compress_edit_render [OF this]
  show ?thesis by (simp add: ins_def rep_def)
qed

text \<open>
  A newline has the same effect: the pattern skips it, so that the characters of \<open>I_[\<close>, a
  newline and \<open>]\<close> are joined to the empty insertion \<open>I_[]\<close>, which a second pass drops.
\<close>

lemma compress_edit_newline:
  "compress_edit (''I_['' @ [NL] @ '']'') = ''I_[]'' \<and>
   compress_edit (compress_edit (''I_['' @ [NL] @ '']'')) = []"
  by code_simp

section \<open>Compression and application\<close>

lemma fixed_ops_Cons [simp]:
  "fixed_ops (x # xs) = (if is_insert x then fixed_ops xs else Suc (fixed_ops xs))"
  by (simp add: fixed_ops_def)

lemma fixed_ops_Nil [simp]: "fixed_ops [] = 0"
  by (simp add: fixed_ops_def)

lemma is_insert_render_op [simp]:
  "is_insert (render_op x) \<longleftrightarrow> is_ins x \<or> is_append x"
  by (cases x) (auto simp: is_insert_def ins_def rep_def app_def)

lemma is_insert_ins [simp]: "is_insert (ins p)"
  by (simp add: is_insert_def ins_def)

lemma fixed_ops_merge:
  "fixed_ops (map render_op (merge_insertions ops pend)) = fixed_ops (map render_op ops)"
  by (induction ops pend rule: merge_insertions.induct) auto

lemma all_inserts_fixed: "list_all is_insert xs \<longleftrightarrow> fixed_ops xs = 0"
  by (induction xs) auto

lemma star_run_cong: "fixed_ops xs = fixed_ops ys \<Longrightarrow> star_run rem xs = star_run rem ys"
  by (simp add: star_run_def all_inserts_fixed)

lemma apply_delete_star_run: "apply_delete_star rem rest = length (star_run rem rest)"
proof -
  have "apply_delete_star rem rest = length (apply_keep_star rem rest)"
    by (simp add: apply_delete_star_def apply_keep_star_def Let_def)
  then show ?thesis by (simp add: apply_keep_star_run)
qed

lemma apply_insert_step:
  "payload_ok p \<Longrightarrow>
     apply_char_edits_from sw i (ins p # rest) idx out
       = apply_char_edits_from sw (Suc i) rest idx (out @ p)"
  using sub_bracket_payload [of p "CHR ''I''"] by (simp add: ins_def)

lemma apply_other_step:
  assumes "\<not> is_ins x" and "i = 0 \<longleftrightarrow> j = 0" and "fixed_ops r1 = fixed_ops r2"
    and "\<And>idx' out'. apply_char_edits_from sw (Suc i) r1 idx' out'
                        = apply_char_edits_from sw (Suc j) r2 idx' out'"
  shows "apply_char_edits_from sw i (render_op x # r1) idx out
           = apply_char_edits_from sw j (render_op x # r2) idx out"
proof (cases x)
  case (Insert p)
  with assms(1) show ?thesis by simp
next
  case KeepRun
  then show ?thesis
    using assms(4) star_run_cong [OF assms(3)] by (simp add: apply_keep_star_run Let_def)
next
  case DeleteRun
  then show ?thesis
    using assms(4) star_run_cong [OF assms(3)] by (simp add: apply_delete_star_run)
next
  case (Append p)
  then show ?thesis using assms(2,4) by (simp add: app_def)
next
  case (Replace p)
  then show ?thesis using assms(4) by (simp add: rep_def)
qed (use assms(4) in simp_all)

declare apply_char_edits_from.simps(2) [simp del]

lemma merge_insertions_other:
  "\<not> is_ins x \<Longrightarrow>
     merge_insertions (x # ops) pend
       = (if pend \<noteq> [] then [Insert pend] else []) @ x # merge_insertions ops []"
  by (cases x) simp_all

lemma apply_merge_insertions:
  assumes "list_all op_ok ops" and "payload_ok pend" and "Insert [] \<notin> set ops"
    and "pend = [] \<longrightarrow> (i = 0 \<longleftrightarrow> j = 0)" and "pend \<noteq> [] \<longrightarrow> i \<noteq> 0"
  shows "apply_char_edits_from sw i (map render_op ops) idx (out @ pend)
           = apply_char_edits_from sw j (map render_op (merge_insertions ops pend)) idx out"
  using assms
proof (induction ops arbitrary: pend i j idx out)
  case Nil
  then show ?case by (simp add: apply_insert_step)
next
  case (Cons x ops)
  then have ok: "list_all op_ok ops" and okx: "op_ok x" and ne: "Insert [] \<notin> set ops" by auto
  show ?case
  proof (cases "is_ins x")
    case True
    then obtain p where Insert: "x = Insert p" by (cases x) auto
    with Cons.prems okx have p: "payload_ok p" "p \<noteq> []" by auto
    have pp: "payload_ok (pend @ p)" using p Cons.prems(2) by (simp add: payload_ok_def)
    have "apply_char_edits_from sw (Suc i) (map render_op ops) idx (out @ (pend @ p))
            = apply_char_edits_from sw j (map render_op (merge_insertions ops (pend @ p))) idx out"
      by (rule Cons.IH [OF ok pp ne]) (use p in simp_all)
    then show ?thesis using Insert p by (simp add: apply_insert_step)
  next
    case nx: False
    note m = merge_insertions_other [OF nx, of ops pend]
    have f: "fixed_ops (map render_op ops) = fixed_ops (map render_op (merge_insertions ops []))"
      by (simp add: fixed_ops_merge)
    have ih: "apply_char_edits_from sw (Suc i') (map render_op ops) idx' out'
                = apply_char_edits_from sw (Suc j') (map render_op (merge_insertions ops [])) idx' out'"
      for i' j' idx' out'
      using Cons.IH [OF ok _ ne, of "[]" "Suc i'" "Suc j'" idx' out'] by (simp add: payload_ok_def)
    show ?thesis
    proof (cases "pend = []")
      case True
      with Cons.prems have "i = 0 \<longleftrightarrow> j = 0" by simp
      from apply_other_step [OF nx this f ih] True m show ?thesis by simp
    next
      case False
      with Cons.prems have "i = 0 \<longleftrightarrow> Suc j = 0" by simp
      from apply_other_step [OF nx this f ih] False m Cons.prems(2)
      show ?thesis by (simp add: apply_insert_step)
    qed
  qed
qed

lemma render_eq_Nil [simp]: "render ops = [] \<longleftrightarrow> ops = []"
  by (cases ops) auto

lemma render_eq_K: "render ops = ''K'' \<longleftrightarrow> ops = [Keep]"
proof (cases ops)
  case Nil
  then show ?thesis by simp
next
  case (Cons x r)
  then show ?thesis by (cases x) (auto simp: ins_def rep_def app_def)
qed

lemma hd_render_A: "prefix ''A'' (render ops) \<longleftrightarrow> (\<exists>p r. ops = Append p # r)"
proof (cases ops)
  case Nil
  then show ?thesis by simp
next
  case (Cons x r)
  then show ?thesis by (cases x) (auto simp: ins_def rep_def app_def)
qed

lemma prefix_render_XA:
  "prefix [c, CHR ''A''] (render ops) \<longleftrightarrow>
     (\<exists>x p r. ops = x # Append p # r \<and> render_op x = [c])"
proof (cases ops)
  case Nil
  then show ?thesis by simp
next
  case (Cons x r)
  then show ?thesis
    using hd_render_A [of r] by (cases x) (auto simp: ins_def rep_def app_def)
qed

lemma merge_insertions_pending:
  "pend \<noteq> [] \<Longrightarrow> \<exists>q r. merge_insertions ops pend = Insert q # r"
  by (induction ops pend rule: merge_insertions.induct) auto

lemma merge_insertions_Nil_iff:
  assumes "Insert [] \<notin> set ops"
  shows "merge_insertions ops [] = [] \<longleftrightarrow> ops = []"
proof (cases ops)
  case Nil
  then show ?thesis by simp
next
  case (Cons y r)
  show ?thesis
  proof (cases "is_ins y")
    case True
    then obtain p where y: "y = Insert p" by (cases y) auto
    with assms Cons have "p \<noteq> []" by auto
    from merge_insertions_pending [OF this, of r] y Cons show ?thesis by auto
  next
    case False
    with Cons show ?thesis by (simp add: merge_insertions_other)
  qed
qed

lemma merge_insertions_head:
  assumes "Insert [] \<notin> set ops"
  shows "(\<exists>r. merge_insertions ops [] = x # r \<and> \<not> is_ins x) \<longleftrightarrow> (\<exists>r. ops = x # r \<and> \<not> is_ins x)"
proof (cases ops)
  case Nil
  then show ?thesis by simp
next
  case (Cons y r)
  show ?thesis
  proof (cases "is_ins y")
    case True
    then obtain p where y: "y = Insert p" by (cases y) auto
    with assms Cons have "p \<noteq> []" by auto
    from merge_insertions_pending [OF this, of r] y Cons show ?thesis by auto
  next
    case False
    with Cons show ?thesis by (auto simp: merge_insertions_other)
  qed
qed

lemma merge_insertions_no_inserts:
  "list_all (\<lambda>x. \<not> is_ins x) ops \<Longrightarrow> merge_insertions ops [] = ops"
  by (induction ops) (auto simp: merge_insertions_other)

lemma merge_insertions_XA:
  assumes "Insert [] \<notin> set ops" and "\<not> is_ins x"
  shows "(\<exists>p r. merge_insertions ops [] = x # Append p # r) \<longleftrightarrow> (\<exists>p r. ops = x # Append p # r)"
proof (cases ops)
  case Nil
  then show ?thesis by simp
next
  case (Cons y r)
  show ?thesis
  proof (cases "is_ins y")
    case True
    then obtain p where y: "y = Insert p" by (cases y) auto
    with assms Cons have "p \<noteq> []" by auto
    from merge_insertions_pending [OF this, of r] y Cons assms(2) show ?thesis by auto
  next
    case False
    from assms Cons have n: "Insert [] \<notin> set r" by auto
    have "(\<exists>p r'. merge_insertions r [] = Append p # r') \<longleftrightarrow> (\<exists>p r'. r = Append p # r')"
      using merge_insertions_head [OF n, of "Append _"] by auto
    with False Cons show ?thesis by (auto simp: merge_insertions_other)
  qed
qed

lemma merge_insertions_K:
  assumes "Insert [] \<notin> set ops"
  shows "merge_insertions ops [] = [Keep] \<longleftrightarrow> ops = [Keep]"
proof (cases ops)
  case Nil
  then show ?thesis by simp
next
  case (Cons y r)
  show ?thesis
  proof (cases "is_ins y")
    case True
    then obtain p where y: "y = Insert p" by (cases y) auto
    with assms Cons have "p \<noteq> []" by auto
    from merge_insertions_pending [OF this, of r] y Cons show ?thesis by auto
  next
    case False
    from assms Cons have n: "Insert [] \<notin> set r" by auto
    from False Cons merge_insertions_Nil_iff [OF n] show ?thesis
      by (auto simp: merge_insertions_other)
  qed
qed

lemma render_op_single: "render_op x = [c] \<Longrightarrow> \<not> is_ins x"
  by (cases x) (auto simp: ins_def)

text \<open>
  C10, as the code has it: for every well-formed tag (a concatenation of ops of the grammar
  whose texts contain neither \<open>]\<close> nor a newline) without an insertion of the empty text, in
  which a leading \<open>KA\<close> or \<open>DA\<close> is followed by appends only, and for every piece text, applying
  the compressed tag gives the same result as applying the tag, also when that is a fault.
\<close>

theorem compress_preserves_apply:
  assumes ok: "list_all op_ok ops" and ne: "Insert [] \<notin> set ops"
    and ap: "prefix ''KA'' (render ops) \<or> prefix ''DA'' (render ops)
             \<longrightarrow> list_all is_append (tl ops)"
  shows "SubwordEdit_apply (self\<lparr>subword_edit := compress_edit (render ops)\<rparr>) sw
           = SubwordEdit_apply (self\<lparr>subword_edit := render ops\<rparr>) sw"
proof -
  let ?m = "merge_insertions ops []"
  have c: "compress_edit (render ops) = render ?m" by (rule compress_edit_render [OF ok])
  have okm: "list_all op_ok ?m" by (rule merge_insertions_ok [OF ok]) (simp add: payload_ok_def)
  show ?thesis
  proof (cases "prefix ''KA'' (render ops) \<or> prefix ''DA'' (render ops)")
    case True
    then obtain x p r where o: "ops = x # Append p # r" and x: "render_op x = ''K'' \<or> render_op x = ''D''"
      by (auto simp: prefix_render_XA)
    from True ap o have "list_all is_append (Append p # r)" by simp
    then have "list_all (\<lambda>x. \<not> is_ins x) (Append p # r)"
      by (induction r) (auto elim: is_append.elims)
    moreover from x have "\<not> is_ins x" by (auto dest: render_op_single)
    ultimately have "?m = ops" using o by (simp add: merge_insertions_no_inserts)
    with c show ?thesis by simp
  next
    case False
    have k: "render ?m = ''K'' \<longleftrightarrow> render ops = ''K''"
      by (simp add: render_eq_K merge_insertions_K [OF ne])
    have xa: "prefix [c, CHR ''A''] (render ?m) \<longleftrightarrow> prefix [c, CHR ''A''] (render ops)" for c
    proof -
      have "(\<exists>x p r. ?m = x # Append p # r \<and> render_op x = [c])
              \<longleftrightarrow> (\<exists>x p r. ops = x # Append p # r \<and> render_op x = [c])"
        using merge_insertions_XA [OF ne] render_op_single by metis
      then show ?thesis by (simp only: prefix_render_XA)
    qed
    have "apply_char_edits (remove_hashes sw) (map render_op ?m)
            = apply_char_edits (remove_hashes sw) (map render_op ops)"
      unfolding apply_char_edits_def
      using apply_merge_insertions [OF ok _ ne, of "[]" 0 0 "remove_hashes sw" 0 "[]"]
      by (simp add: payload_ok_def)
    with False k xa [of "CHR ''K''"] xa [of "CHR ''D''"] show ?thesis
      by (simp add: SubwordEdit_apply_def c findall_render ok okm)
  qed
qed

text \<open>
  C10 as stated (for every tag) fails on a text with a \<open>]\<close>: the tag \<open>I_[a]]I_[b]K\<close>, which
  \<open>Edit.create\<close> builds for the inserted groups \<open>a]\<close> and \<open>b\<close> in front of a kept \<open>x\<close>, turns
  the piece \<open>x\<close> into \<open>a]bx\<close>, and its compression \<open>I_[a]b]K\<close> turns it into \<open>ax\<close>.
\<close>

theorem compress_preserves_apply_counterexample:
  "SubwordEdit_apply \<lparr>subword = ''x'', raw_subword = ''x'',
                      subword_edit = compress_edit ''I_[a]]I_[b]K''\<rparr> ''x''
     \<noteq> SubwordEdit_apply \<lparr>subword = ''x'', raw_subword = ''x'',
                           subword_edit = ''I_[a]]I_[b]K''\<rparr> ''x''"
  by code_simp

theorem compress_preserves_apply_witness:
  "SubwordEdit_apply \<lparr>subword = ''ab'', raw_subword = ''ab'',
                      subword_edit = compress_edit ''KI_[x]I_[y]D''\<rparr> ''ab'' = Inr ''axy'' \<and>
   SubwordEdit_apply \<lparr>subword = ''ab'', raw_subword = ''ab'',
                      subword_edit = ''KI_[x]I_[y]D''\<rparr> ''ab'' = Inr ''axy''"
proof -
  let ?ops = "[Keep, Insert ''x'', Insert ''y'', Delete]"
  have a: "list_all op_ok ?ops" by (simp add: payload_ok_def NL_def)
  have b: "Insert [] \<notin> set ?ops" by simp
  have c: "prefix ''KA'' (render ?ops) \<or> prefix ''DA'' (render ?ops)
             \<longrightarrow> list_all is_append (tl ?ops)" by (simp add: ins_def)
  have r: "render ?ops = ''KI_[x]I_[y]D''" by (simp add: ins_def)
  have "SubwordEdit_apply \<lparr>subword = ''ab'', raw_subword = ''ab'',
                      subword_edit = ''KI_[x]I_[y]D''\<rparr> ''ab'' = Inr ''axy''" by code_simp
  with compress_preserves_apply [OF a b c, of "\<lparr>subword = ''ab'', raw_subword = ''ab'', subword_edit = []\<rparr>" "''ab''"]
  show ?thesis unfolding r by simp
qed

text \<open>
  The other hypotheses of C10 are needed as well.  Compression drops an insertion of the
  empty text, which turns \<open>I_[]K\<close> into the whole-word tag \<open>K\<close>; it drops a newline, which does
  the same to \<open>K\<close> with a newline; and after \<open>KA\<close> the appends are searched for in the whole tag,
  also inside the texts of the insertions that compression joins.
\<close>

lemma compress_apply_hypotheses_needed:
  "compress_edit ''I_[]K'' = ''K'' \<and>
   SubwordEdit_apply \<lparr>subword = ''ab'', raw_subword = ''ab'', subword_edit = ''I_[]K''\<rparr> ''ab''
     = Inr ''a'' \<and>
   SubwordEdit_apply \<lparr>subword = ''ab'', raw_subword = ''ab'', subword_edit = ''K''\<rparr> ''ab''
     = Inr ''ab'' \<and>
   compress_edit (''K'' @ [NL]) = ''K'' \<and>
   SubwordEdit_apply \<lparr>subword = ''ab'', raw_subword = ''ab'', subword_edit = ''K'' @ [NL]\<rparr> ''ab''
     = Inr ''a'' \<and>
   compress_edit ''KA_[x]I_[A_[y]I_[z]'' = ''KA_[x]I_[A_[yz]'' \<and>
   SubwordEdit_apply \<lparr>subword = ''ab'', raw_subword = ''ab'', subword_edit = ''KA_[x]I_[A_[y]I_[z]''\<rparr>
       ''ab'' = Inr ''ab x y'' \<and>
   SubwordEdit_apply \<lparr>subword = ''ab'', raw_subword = ''ab'', subword_edit = ''KA_[x]I_[A_[yz]''\<rparr>
       ''ab'' = Inr ''ab x yz''"
  by code_simp

section \<open>The run operator and the merge marker on well-formed tags\<close>




lemma read_chars_simps [simp]:
  "read_chars [] = 0" "read_chars (x # ops) = reads x + read_chars ops"
  by (simp_all add: read_chars_def)

text \<open>The loop of \<open>apply\<close> over ops without a run operator, when the piece is long enough.\<close>

lemma apply_plain_ops:
  assumes "list_all op_ok ops" and "list_all plain ops" and "idx + read_chars ops \<le> length sw"
    and "i \<noteq> 0 \<or> \<not> list_ex is_append ops"
  shows "apply_char_edits_from sw i (map render_op ops @ rest) idx out
           = apply_char_edits_from sw (i + length ops) rest (idx + read_chars ops)
               (out @ emitted (map as_insertion ops) (drop idx sw))"
  using assms
proof (induction ops arbitrary: i idx out)
  case Nil
  then show ?case by simp
next
  case (Cons x ops)
  then have ok: "list_all op_ok ops" and pl: "list_all plain ops" by simp_all
  have ix: "Suc i \<noteq> 0 \<or> \<not> list_ex is_append ops" by simp
  show ?case
  proof (cases x)
    case Keep
    with Cons.prems have lt: "idx < length sw" and le: "Suc idx + read_chars ops \<le> length sw" by simp_all
    have d: "drop idx sw = sw ! idx # drop (Suc idx) sw" using lt by (simp add: Cons_nth_drop_Suc)
    show ?thesis
      using Cons.IH [OF ok pl le ix, of "out @ [sw ! idx]"] Keep lt
      by (simp add: apply_char_edits_from.simps(2) d)
  next
    case Delete
    with Cons.prems have le: "Suc idx + read_chars ops \<le> length sw" by simp
    show ?thesis
      using Cons.IH [OF ok pl le ix, of out] Delete
      by (simp add: apply_char_edits_from.simps(2))
  next
    case (Insert p)
    with Cons.prems have le: "idx + read_chars ops \<le> length sw" and p: "payload_ok p" by simp_all
    show ?thesis
      using Cons.IH [OF ok pl le ix, of "out @ p"] Insert
      by (simp add: apply_insert_step [OF p])
  next
    case (Replace p)
    with Cons.prems have le: "Suc idx + read_chars ops \<le> length sw" and p: "payload_ok p" by simp_all
    show ?thesis
      using Cons.IH [OF ok pl le ix, of "out @ p"] Replace
        sub_bracket_payload [OF p, of "CHR ''R''"]
      by (simp add: apply_char_edits_from.simps(2) rep_def)
  next
    case (Append p)
    with Cons.prems have le: "idx + read_chars ops \<le> length sw" and p: "payload_ok p"
      and i: "i \<noteq> 0" by simp_all
    show ?thesis
      using Cons.IH [OF ok pl le ix, of "out @ '' '' @ p"] Append i
        sub_bracket_payload [OF p, of "CHR ''A''"]
      by (simp add: apply_char_edits_from.simps(2) app_def)
  next
    case SoftKeep
    with Cons.prems have le: "idx + read_chars ops \<le> length sw" by simp
    show ?thesis
      using Cons.IH [OF ok pl le ix, of out] SoftKeep
      by (simp add: apply_char_edits_from.simps(2))
  next
    case Merge
    with Cons.prems have le: "idx + read_chars ops \<le> length sw" by simp
    show ?thesis
      using Cons.IH [OF ok pl le ix, of out] Merge
      by (simp add: apply_char_edits_from.simps(2))
  qed (use Cons.prems in simp_all)
qed

lemma reads_le_fixed: "read_chars ops \<le> fixed_ops (map render_op ops)"
proof (induction ops)
  case Nil
  then show ?case by simp
next
  case (Cons x ops)
  then show ?case by (cases x) (auto simp: is_insert_def ins_def rep_def app_def)
qed

lemma as_insertion_id: "\<not> list_ex is_append ops \<Longrightarrow> map as_insertion ops = ops"
proof (induction ops)
  case Nil
  then show ?case by simp
next
  case (Cons x ops)
  then show ?case by (cases x) auto
qed

lemma length_star_run:
  "length (star_run remaining rest) = length remaining - fixed_ops rest"
  by (simp add: star_run_def all_inserts_fixed)

lemma run_tag_not_special:
  assumes "\<not> list_ex is_append pre"
  shows "render (pre @ KeepRun # post) \<noteq> ''K''"
    and "\<not> prefix [c, CHR ''A''] (render (pre @ KeepRun # post))"
proof -
  show "render (pre @ KeepRun # post) \<noteq> ''K''"
    unfolding render_eq_K by (cases pre) auto
  show "\<not> prefix [c, CHR ''A''] (render (pre @ KeepRun # post))"
  proof
    assume "prefix [c, CHR ''A''] (render (pre @ KeepRun # post))"
    then obtain x p r where e: "pre @ KeepRun # post = x # Append p # r" and c: "render_op x = [c]"
      unfolding prefix_render_XA by blast
    show False
    proof (cases pre)
      case Nil
      with e c show False by simp
    next
      case (Cons y ys)
      with e assms show False by (cases ys) auto
    qed
  qed
qed

text \<open>
  C6: when the loop of \<open>apply\<close> meets a \<open>K*\<close>, it copies a run of the characters not read yet
  and moves the read cursor behind it.  The run \<open>star_run\<close> is all of them if every op after
  the \<open>K*\<close> is an insertion or an append, and otherwise all of them except the last \<open>n\<close>,
  where \<open>n\<close> is the number of the ops after the \<open>K*\<close> that are neither; a merge marker counts
  among these.  This holds at every \<open>K*\<close> the loop meets.  For a well-formed tag whose only
  run operator is this \<open>K*\<close> and that has no append in front of it, and a piece long enough
  for the ops around the \<open>K*\<close>, the result of \<open>apply\<close> follows: the \<open>##\<close> mark of the piece,
  what the ops in front of the \<open>K*\<close> give on the first characters, the run, and what the ops
  behind the \<open>K*\<close> give on the last \<open>n\<close> characters.
\<close>

theorem keep_star_copies_run:
  "apply_char_edits_from sw i (''K*'' # rest) idx edited =
     apply_char_edits_from sw (Suc i) rest (idx + length (star_run (drop idx sw) rest))
       (edited @ star_run (drop idx sw) rest) \<and>
   (list_all op_ok (pre @ post) \<and> list_all plain pre \<and> \<not> list_ex is_append pre \<and>
    list_all plain post \<and>
    read_chars pre + fixed_ops (map render_op post) \<le> length (remove_hashes piece) \<longrightarrow>
      SubwordEdit_apply \<lparr>subword = a, raw_subword = b, subword_edit = render (pre @ KeepRun # post)\<rparr>
          piece
        = Inr ((if sublist ''##'' piece then ''##'' else []) @
               emitted pre (remove_hashes piece) @
               star_run (drop (read_chars pre) (remove_hashes piece)) (map render_op post) @
               emitted (map as_insertion post)
                 (drop (length (remove_hashes piece) - fixed_ops (map render_op post))
                    (remove_hashes piece))))"
proof -
  define s where "s = remove_hashes piece"
  define n where "n = fixed_ops (map render_op post)"
  let ?p = "read_chars pre"
  let ?toks = "map render_op post"
  let ?run = "star_run (drop ?p s) ?toks"
  have step: "apply_char_edits_from sw i (''K*'' # rest) idx edited =
     apply_char_edits_from sw (Suc i) rest (idx + length (star_run (drop idx sw) rest))
       (edited @ star_run (drop idx sw) rest)"
    by (simp add: apply_char_edits_from.simps(2) apply_keep_star_run Let_def)
  have result: "SubwordEdit_apply \<lparr>subword = a, raw_subword = b,
                                     subword_edit = render (pre @ KeepRun # post)\<rparr> piece
        = Inr ((if sublist ''##'' piece then ''##'' else []) @
               emitted pre s @ ?run @ emitted (map as_insertion post) (drop (length s - n) s))"
    if ok: "list_all op_ok (pre @ post)" and pre: "list_all plain pre" "\<not> list_ex is_append pre"
      and post: "list_all plain post" and fit: "read_chars pre + n \<le> length s"
  proof -
    have ok': "list_all op_ok (pre @ KeepRun # post)" and okp: "list_all op_ok pre"
      and okq: "list_all op_ok post"
      using ok by simp_all
    have lr: "length ?run = length s - ?p - n"
      by (simp add: length_star_run n_def)
    have pos: "?p + length ?run = length s - n" using fit lr by simp
    have a: "apply_char_edits_from s 0 (map render_op pre @ ''K*'' # ?toks) 0 []
               = apply_char_edits_from s (length pre) (''K*'' # ?toks) ?p (emitted pre s)"
      using apply_plain_ops [OF okp pre(1), of 0 s 0 "''K*'' # ?toks" "[]"] pre(2) fit
      by (simp add: as_insertion_id)
    have b: "apply_char_edits_from s (length pre) (''K*'' # ?toks) ?p (emitted pre s)
               = apply_char_edits_from s (Suc (length pre)) ?toks (?p + length ?run)
                   (emitted pre s @ ?run)"
      by (simp add: apply_char_edits_from.simps(2) apply_keep_star_run Let_def)
    have le: "?p + length ?run + read_chars post \<le> length s"
      using pos fit reads_le_fixed [of post] by (simp add: n_def)
    have c: "apply_char_edits_from s (Suc (length pre)) ?toks (?p + length ?run) (emitted pre s @ ?run)
               = Inr (emitted pre s @ ?run @ emitted (map as_insertion post) (drop (length s - n) s))"
      using apply_plain_ops [OF okq post le, of "Suc (length pre)" "[]" "emitted pre s @ ?run"] pos
      by simp
    define tag where "tag = render (pre @ KeepRun # post)"
    have f: "findall char_edit_re tag = map render_op pre @ ''K*'' # ?toks"
      unfolding tag_def using findall_render [OF ok'] by simp
    have r: "apply_char_edits s (findall char_edit_re tag)
               = Inr (emitted pre s @ ?run @ emitted (map as_insertion post) (drop (length s - n) s))"
      unfolding apply_char_edits_def f using a b c by simp
    have sp: "tag \<noteq> ''K''" "\<not> prefix ''KA'' tag" "\<not> prefix ''DA'' tag"
      unfolding tag_def using run_tag_not_special [OF pre(2)] by blast+
    have "SubwordEdit_apply \<lparr>subword = a, raw_subword = b, subword_edit = tag\<rparr> piece
            = Inr ((if sublist ''##'' piece then ''##'' else []) @
                   emitted pre s @ ?run @ emitted (map as_insertion post) (drop (length s - n) s))"
      using sp r by (simp add: SubwordEdit_apply_def s_def)
    then show ?thesis by (simp only: tag_def)
  qed
  from step result show ?thesis unfolding s_def n_def by blast
qed

theorem keep_star_copies_run_witness:
  "SubwordEdit_apply \<lparr>subword = ''##abcde'', raw_subword = ''abcde'',
                      subword_edit = ''DK*MR_[x]I_[y]A_[z]''\<rparr> ''##abcde'' = Inr ''##bcxy z'' \<and>
   SubwordEdit_apply \<lparr>subword = ''abc'', raw_subword = ''abc'', subword_edit = ''KK*I_[y]A_[z]''\<rparr> ''abc''
     = Inr ''abcy z'' \<and>
   star_run ''bcde'' [''M'', ''R_[x]'', ''I_[y]'', ''A_[z]''] = ''bc'' \<and>
   star_run ''bc'' [''I_[y]'', ''A_[z]''] = ''bc''"
proof -
  let ?post = "[Merge, Replace ''x'', Insert ''y'', Append ''z'']"
  let ?post' = "[Insert ''y'', Append ''z'']"
  have t: "render ([Delete] @ KeepRun # ?post) = ''DK*MR_[x]I_[y]A_[z]''"
    "render ([Keep] @ KeepRun # ?post') = ''KK*I_[y]A_[z]''"
    by (simp_all add: ins_def rep_def app_def)
  have h: "list_all op_ok ([Delete] @ ?post) \<and> list_all plain [Delete] \<and>
           \<not> list_ex is_append [Delete] \<and> list_all plain ?post \<and>
           read_chars [Delete] + fixed_ops (map render_op ?post) \<le> length (remove_hashes ''##abcde'')"
    by (simp add: payload_ok_def NL_def is_insert_def ins_def rep_def app_def)
  have h': "list_all op_ok ([Keep] @ ?post') \<and> list_all plain [Keep] \<and>
            \<not> list_ex is_append [Keep] \<and> list_all plain ?post' \<and>
            read_chars [Keep] + fixed_ops (map render_op ?post') \<le> length (remove_hashes ''abc'')"
    by (simp add: payload_ok_def NL_def is_insert_def ins_def rep_def app_def)
  have v: "(if sublist ''##'' ''##abcde'' then ''##'' else []) @
           emitted [Delete] (remove_hashes ''##abcde'') @
           star_run (drop (read_chars [Delete]) (remove_hashes ''##abcde'')) (map render_op ?post) @
           emitted (map as_insertion ?post)
             (drop (length (remove_hashes ''##abcde'') - fixed_ops (map render_op ?post))
                (remove_hashes ''##abcde'')) = ''##bcxy z''"
    by (simp add: star_run_def is_insert_def ins_def rep_def app_def sublist_code)
  have v': "(if sublist ''##'' ''abc'' then ''##'' else []) @
           emitted [Keep] (remove_hashes ''abc'') @
           star_run (drop (read_chars [Keep]) (remove_hashes ''abc'')) (map render_op ?post') @
           emitted (map as_insertion ?post')
             (drop (length (remove_hashes ''abc'') - fixed_ops (map render_op ?post'))
                (remove_hashes ''abc'')) = ''abcy z''"
    by (simp add: star_run_def is_insert_def ins_def rep_def app_def sublist_code)
  have r: "star_run ''bcde'' [''M'', ''R_[x]'', ''I_[y]'', ''A_[z]''] = ''bc''"
    "star_run ''bc'' [''I_[y]'', ''A_[z]''] = ''bc''"
    by (simp_all add: star_run_def is_insert_def)
  note k = keep_star_copies_run [where pre = "[Delete]" and post = ?post and piece = "''##abcde''"
      and a = "''##abcde''" and b = "''abcde''", THEN conjunct2, THEN mp, OF h]
  note k' = keep_star_copies_run [where pre = "[Keep]" and post = ?post' and piece = "''abc''"
      and a = "''abc''" and b = "''abc''", THEN conjunct2, THEN mp, OF h']
  from k k' r show ?thesis
    by (simp only: t v v' simp_thms)
qed

text \<open>
  When the piece is too short for the ops around the \<open>K*\<close>, the run is empty and the ops
  behind it read what there is: a \<open>K\<close> beyond the end of the piece raises IndexError, an
  \<open>R_[p]\<close> there still gives \<open>p\<close>.
\<close>

lemma keep_star_short_piece:
  "SubwordEdit_apply \<lparr>subword = ''a'', raw_subword = ''a'', subword_edit = ''K*KK''\<rparr> ''a''
     = Inl IndexError \<and>
   SubwordEdit_apply \<lparr>subword = ''a'', raw_subword = ''a'', subword_edit = ''K*R_[x]R_[y]''\<rparr> ''a''
     = Inr ''xy''"
  by code_simp





text \<open>
  The other hypotheses are needed: without the \<open>M\<close> the tags \<open>MK\<close>, \<open>KMA_[x]\<close> and \<open>DMA_[x]\<close>
  are the whole-tag cases \<open>K\<close>, \<open>KA_[x]\<close> and \<open>DA_[x]\<close>, and in \<open>MA_[x]K\<close> the \<open>M\<close> keeps the
  append from being the first op.
\<close>

lemma merge_hypotheses_needed:
  "SubwordEdit_apply \<lparr>subword = ''ab'', raw_subword = ''ab'', subword_edit = ''MK''\<rparr> ''ab'' = Inr ''a'' \<and>
   SubwordEdit_apply \<lparr>subword = ''ab'', raw_subword = ''ab'', subword_edit = ''K''\<rparr> ''ab'' = Inr ''ab'' \<and>
   \<not> is_applicable \<lparr>subword = ''ab'', raw_subword = ''ab'', subword_edit = ''MK''\<rparr> ''ab'' \<and>
   is_applicable \<lparr>subword = ''ab'', raw_subword = ''ab'', subword_edit = ''K''\<rparr> ''ab'' \<and>
   SubwordEdit_apply \<lparr>subword = ''ab'', raw_subword = ''ab'', subword_edit = ''KMA_[x]''\<rparr> ''ab''
     = Inr ''a x'' \<and>
   SubwordEdit_apply \<lparr>subword = ''ab'', raw_subword = ''ab'', subword_edit = ''KA_[x]''\<rparr> ''ab''
     = Inr ''ab x'' \<and>
   \<not> is_applicable \<lparr>subword = ''ab'', raw_subword = ''ab'', subword_edit = ''KMA_[x]''\<rparr> ''ab'' \<and>
   is_applicable \<lparr>subword = ''ab'', raw_subword = ''ab'', subword_edit = ''KA_[x]''\<rparr> ''ab'' \<and>
   SubwordEdit_apply \<lparr>subword = ''a'', raw_subword = ''a'', subword_edit = ''DMA_[x]''\<rparr> ''a''
     = Inr '' x'' \<and>
   SubwordEdit_apply \<lparr>subword = ''a'', raw_subword = ''a'', subword_edit = ''DA_[x]''\<rparr> ''a''
     = Inr ''x'' \<and>
   SubwordEdit_apply \<lparr>subword = ''a'', raw_subword = ''a'', subword_edit = ''MA_[x]K''\<rparr> ''a''
     = Inr '' xa'' \<and>
   SubwordEdit_apply \<lparr>subword = ''a'', raw_subword = ''a'', subword_edit = ''A_[x]K''\<rparr> ''a''
     = Inr ''x a''"
  by code_simp

section \<open>The encoder returns well-formed tags\<close>

lemma render_concat: "render (concat xss) = concat (map render xss)"
  by (induction xss) auto

lemma render_map_single:
  "(\<And>c. c \<in> set xs \<Longrightarrow> render_op (f c) = [g c]) \<Longrightarrow> render (map f xs) = map g xs"
  by (induction xs) auto

lemma render_replicate_Keep [simp]: "render (replicate n Keep) = replicate n (CHR ''K'')"
  by (induction n) auto

lemma render_replicate_Delete [simp]: "render (replicate n Delete) = replicate n (CHR ''D'')"
  by (induction n) auto

lemma render_map_concat:
  "render (map f xs) = concat (map (\<lambda>c. render_op (f c)) xs)"
  by (induction xs) auto

lemma replace_scan_render:
  "replace_scan src tgt = (e, src_rest, tgt_rest) \<Longrightarrow> e = render (scan_ops src tgt)"
  by (induction src tgt arbitrary: e src_rest tgt_rest rule: replace_scan.induct)
     (auto split: if_splits prod.splits)

lemma concat_map_if_single:
  "concat (map (\<lambda>c. if P c then [a] else [b]) xs) = map (\<lambda>c. if P c then a else b) xs"
  by (induction xs) auto

lemma render_map_if:
  "render (map (\<lambda>c. if P c then x else y) xs)
     = concat (map (\<lambda>c. if P c then render_op x else render_op y) xs)"
  by (induction xs) auto

lemma get_edits_render:
  "get_edits src_chars tgt_chars = Inr e \<Longrightarrow> e = render (get_edits_ops src_chars tgt_chars)"
  by (auto simp: get_edits_def get_edits_ops_def render_map_if concat_map_if_single
      dest: replace_scan_render split: if_splits prod.splits cong: if_cong)

lemma replacments_render:
  "replacments src_chars tgt_chars = Inr e \<Longrightarrow> e = render (replacments_ops src_chars tgt_chars)"
proof -
  have z: "render (concat (map (\<lambda>(s, t). if s = CHR '' '' then [Merge, Insert [t]] else [Replace [t]]) xs))
             = concat (map (\<lambda>(s, t). if s = CHR '' '' then ''M'' @ ins [t] else rep [t]) xs)" for xs
    by (induction xs) auto
  have r: "render (map (\<lambda>t. Replace [t]) xs) = concat (map (\<lambda>t. rep [t]) xs)" for xs
    by (induction xs) auto
  have i: "render (map (\<lambda>t. Insert [t]) xs) = concat (map (\<lambda>t. ins [t]) xs)" for xs
    by (induction xs) auto
  assume "replacments src_chars tgt_chars = Inr e"
  then show ?thesis
    by (auto simp: replacments_def replacments_ops_def z r i split: if_splits)
qed

lemma detailed_group_render:
  "detailed_group src_chars tgt_chars = Inr e \<Longrightarrow> e = render (group_ops src_chars tgt_chars)"
  by (auto simp: detailed_group_def group_ops_def render_map_if concat_map_if_single
      dest: get_edits_render replacments_render split: if_splits cong: if_cong)

lemma generate_detailed_edit_render:
  "generate_detailed_edit S T = Inr e \<Longrightarrow> e = render (detailed_ops S T)"
  by (induction S T arbitrary: e rule: generate_detailed_edit.induct)
     (auto simp: detailed_ops_def dest: detailed_group_render split: sum.splits)

lemma consumed_simps [simp]:
  "consumed [] = 0" "consumed (x # ops) = width x + consumed ops"
  "consumed (xs @ ys) = consumed xs + consumed ys"
  by (simp_all add: consumed_def)

lemma consumed_replicate [simp]: "consumed (replicate n x) = n * width x"
  by (induction n) auto

lemma consumed_map_unit: "(\<And>c. width (f c) = 1) \<Longrightarrow> consumed (map f xs) = length xs"
  by (induction xs) auto

lemma consumed_map_zero: "(\<And>c. width (f c) = 0) \<Longrightarrow> consumed (map f xs) = 0"
  by (induction xs) auto

lemma consumed_scan:
  "replace_scan src tgt = (e, src_rest, tgt_rest) \<Longrightarrow>
     consumed (scan_ops src tgt) + length src_rest = length src"
  by (induction src tgt arbitrary: e src_rest tgt_rest rule: replace_scan.induct)
     (auto split: if_splits prod.splits)

lemma consumed_get_edits_ops: "consumed (get_edits_ops src tgt) = length src"
proof -
  obtain e r q where s: "replace_scan src tgt = (e, r, q)" by (cases "replace_scan src tgt") auto
  from consumed_scan [OF s] s show ?thesis
    by (simp add: get_edits_ops_def consumed_map_unit)
qed

lemma consumed_zip_ops:
  "consumed (concat (map (\<lambda>(s, t). if s = CHR '' '' then [Merge, Insert [t]] else [Replace [t]]) xs))
     = length xs"
  by (induction xs) auto

lemma consumed_replacments_ops:
  assumes "src \<noteq> []" and "length src \<le> length tgt"
  shows "consumed (replacments_ops src tgt) = length src"
proof -
  from assms have "length tgt = 1 \<Longrightarrow> length src = 1" by (cases src) auto
  then show ?thesis
    using assms by (auto simp: replacments_ops_def consumed_zip_ops consumed_map_unit consumed_map_zero)
qed

lemma consumed_group_ops: "consumed (group_ops s t) = length s"
  by (auto simp: group_ops_def consumed_get_edits_ops consumed_replacments_ops consumed_map_unit)

lemma consumed_detailed_ops:
  "length S \<le> length T \<Longrightarrow> consumed (detailed_ops S T) = length (concat S)"
proof (induction S arbitrary: T)
  case Nil
  then show ?case by (simp add: detailed_ops_def)
next
  case (Cons s S)
  then obtain t T' where T: "T = t # T'" by (cases T) auto
  with Cons show ?case by (simp add: detailed_ops_def consumed_group_ops)
qed

lemma payload_ok_single: "c \<in> set t \<Longrightarrow> payload_ok t \<Longrightarrow> payload_ok [c]"
  by (auto simp: payload_ok_def)

lemma op_ok_scan: "payload_ok tgt \<Longrightarrow> list_all op_ok (scan_ops src tgt)"
  by (induction src tgt rule: scan_ops.induct) (auto simp: payload_ok_def)

lemma op_ok_get_edits_ops: "payload_ok tgt \<Longrightarrow> list_all op_ok (get_edits_ops src tgt)"
proof -
  assume p: "payload_ok tgt"
  have "tgt \<noteq> [] \<Longrightarrow> payload_ok [hd tgt]" using p by (cases tgt) (auto simp: payload_ok_def)
  then show ?thesis
    using op_ok_scan [OF p, of src]
    by (auto simp: get_edits_ops_def list_all_iff split: prod.splits)
qed

lemma op_ok_zip_ops:
  "list_all (\<lambda>(a, b). payload_ok [b]) xs \<Longrightarrow>
     list_all op_ok
       (concat (map (\<lambda>(s, t). if s = CHR '' '' then [Merge, Insert [t]] else [Replace [t]]) xs))"
  by (induction xs) auto

lemma op_ok_replacments_ops: "payload_ok tgt \<Longrightarrow> list_all op_ok (replacments_ops src tgt)"
proof -
  assume p: "payload_ok tgt"
  have s: "c \<in> set tgt \<Longrightarrow> payload_ok [c]" for c using p by (auto simp: payload_ok_def)
  have "list_all (\<lambda>(a, b). payload_ok [b]) (zip src tgt)"
    using s by (auto simp: list_all_iff dest: set_zip_rightD)
  from op_ok_zip_ops [OF this] show ?thesis
    using p s by (auto simp: replacments_ops_def list_all_iff dest: in_set_takeD in_set_dropD)
qed

lemma op_ok_group_ops: "payload_ok t \<Longrightarrow> list_all op_ok (group_ops s t)"
  using op_ok_get_edits_ops [of t s] op_ok_replacments_ops [of t s]
  by (auto simp: group_ops_def list_all_iff)

lemma payload_ok_append [simp]: "payload_ok (a @ b) \<longleftrightarrow> payload_ok a \<and> payload_ok b"
  by (auto simp: payload_ok_def)

lemma op_ok_detailed_ops: "payload_ok (concat T) \<Longrightarrow> list_all op_ok (detailed_ops S T)"
proof (induction S arbitrary: T)
  case Nil
  then show ?case by (simp add: detailed_ops_def)
next
  case (Cons s S)
  show ?case
  proof (cases T)
    case Nil
    then show ?thesis by (simp add: detailed_ops_def)
  next
    case (Cons t T')
    with Cons.prems Cons.IH [of T'] show ?thesis
      by (simp add: detailed_ops_def op_ok_group_ops)
  qed
qed

lemma consumes_one_render_op: "consumes_one (render_op x) \<longleftrightarrow> width x = 1"
  by (cases x) (auto simp: consumes_one_def ins_def rep_def app_def)

lemma width_cases: "width x = 0 \<or> width x = 1"
  by (cases x) auto

lemma count_consumes_one:
  "length (filter consumes_one (map render_op ops)) = consumed ops"
proof (induction ops)
  case Nil
  then show ?case by simp
next
  case (Cons x ops)
  with width_cases [of x] show ?case by (auto simp: consumes_one_render_op)
qed

section \<open>The consumption of the tags of Edit.create\<close>

lemma simple_scan: "CHR '' '' \<notin> set src \<Longrightarrow> list_all simple (scan_ops src tgt)"
  by (induction src tgt rule: scan_ops.induct) auto

lemma simple_zip_ops:
  "list_all (\<lambda>(a, b). a \<noteq> CHR '' '') xs \<Longrightarrow>
     list_all simple
       (concat (map (\<lambda>(s, t). if s = CHR '' '' then [Merge, Insert [t]] else [Replace [t]]) xs))"
  by (induction xs) auto

lemma simple_group_ops:
  assumes "CHR '' '' \<notin> set s"
  shows "list_all simple (group_ops s t)"
proof -
  have z: "list_all (\<lambda>(a, b). a \<noteq> CHR '' '') (zip s t)"
    using assms by (auto simp: list_all_iff dest: set_zip_leftD)
  have sp: "s \<noteq> '' ''" using assms by auto
  show ?thesis
    using assms sp simple_scan [OF assms, of t] simple_zip_ops [OF z]
    by (auto simp: group_ops_def get_edits_ops_def replacments_ops_def list_all_iff
        split: prod.splits)
qed

lemma simple_detailed_ops:
  "CHR '' '' \<notin> set (concat S) \<Longrightarrow> list_all simple (detailed_ops S T)"
proof (induction S arbitrary: T)
  case Nil
  then show ?case by (simp add: detailed_ops_def)
next
  case (Cons s S)
  show ?case
  proof (cases T)
    case Nil
    then show ?thesis by (simp add: detailed_ops_def)
  next
    case (Cons t T')
    with Cons.prems Cons.IH [of T'] show ?thesis
      by (simp add: detailed_ops_def simple_group_ops)
  qed
qed

lemma wo_append_merge_simple:
  "list_all simple ops \<Longrightarrow>
     wo_append_merge (map render_op ops) = map render_op (filter (\<lambda>x. \<not> is_ins x) ops)"
proof (induction ops)
  case Nil
  then show ?case by (simp add: wo_append_merge_def)
next
  case (Cons x ops)
  then show ?case
    by (cases x) (auto simp: wo_append_merge_def ins_def rep_def)
qed

lemma applicable_walk_simple:
  "list_all simple ops \<Longrightarrow> list_all (\<lambda>x. \<not> is_ins x) ops \<Longrightarrow>
     applicable_walk sw (map render_op ops) idx = idx + length ops"
proof (induction ops arbitrary: idx)
  case Nil
  then show ?case by simp
next
  case (Cons x ops)
  then show ?case by (cases x) (auto simp: rep_def)
qed

lemma consumed_simple:
  "list_all simple ops \<Longrightarrow> consumed ops = length (filter (\<lambda>x. \<not> is_ins x) ops)"
proof (induction ops)
  case Nil
  then show ?case by simp
next
  case (Cons x ops)
  then show ?case by (cases x) auto
qed

lemma remove_hashes_id: "CHR ''#'' \<notin> set s \<Longrightarrow> remove_hashes s = s"
  by (induction s rule: remove_hashes.induct) auto

lemma is_applicable_simple:
  assumes "list_all op_ok ops" and "list_all simple ops" and "consumed ops = length sw"
    and "CHR ''#'' \<notin> set sw"
  shows "is_applicable \<lparr>subword = a, raw_subword = b, subword_edit = render ops\<rparr> sw"
proof -
  let ?f = "filter (\<lambda>x. \<not> is_ins x) ops"
  have s: "list_all simple ?f" using assms(2) by (simp add: list_all_iff)
  have n: "list_all (\<lambda>x. \<not> is_ins x) ?f" by (simp add: list_all_iff)
  have l: "length ?f = length sw" using consumed_simple [OF assms(2)] assms(3) by simp
  show ?thesis
    using applicable_walk_simple [OF s n, of sw 0] l
    by (simp add: is_applicable_def findall_render [OF assms(1)] wo_append_merge_simple [OF assms(2)]
        remove_hashes_id [OF assms(4)] Let_def)
qed

lemma length_concat_units: "list_all (\<lambda>s. length s = 1) S \<Longrightarrow> length (concat S) = length S"
  by (induction S) auto

lemma create_ops:
  assumes len: "length S = length T" and pay: "payload_ok (concat T)"
    and nk: "S \<noteq> T" and nd: "T \<noteq> [[]]"
    and mg: "is_merge S T \<longrightarrow> list_all (\<lambda>s. length s = 1) S"
    and cr: "Edit_create S T = Inr e"
  shows "\<exists>ops. edit e = render ops \<and> list_all op_ok ops \<and> consumed ops = length (word e) \<and>
           (CHR '' '' \<notin> set (word e) \<longrightarrow> list_all simple ops)"
proof (cases "S = [[]]")
  case True
  with nk nd cr have e: "e = \<lparr>word = [], edit = ins (concat T)\<rparr>"
    by (simp add: Edit_create_def)
  show ?thesis
    by (rule exI [of _ "[Insert (concat T)]"]) (simp add: e pay)
next
  case ns: False
  show ?thesis
  proof (cases "is_merge S T")
    case True
    let ?ops = "map (\<lambda>c. if c \<noteq> '' '' then Keep else Merge) S"
    from True ns nk nd cr
    have e: "e = \<lparr>word = concat S, edit = map (\<lambda>c. if c \<noteq> '' '' then CHR ''K'' else CHR ''M'') S\<rparr>"
      by (simp add: Edit_create_def)
    have r: "render ?ops = map (\<lambda>c. if c \<noteq> '' '' then CHR ''K'' else CHR ''M'') S"
      by (simp add: render_map_if concat_map_if_single cong: if_cong)
    have c: "consumed ?ops = length S" by (simp add: consumed_map_unit)
    have s: "CHR '' '' \<notin> set (concat S) \<Longrightarrow> list_all simple ?ops"
      by (induction S) auto
    have k: "list_all op_ok ?ops" by (induction S) auto
    have l: "length (concat S) = length S" using True mg by (simp add: length_concat_units)
    show ?thesis
      by (rule exI [of _ ?ops]) (use s k l in \<open>simp add: e r c\<close>)
  next
    case False
    with ns nk nd cr obtain ed where g: "generate_detailed_edit S T = Inr ed"
      and e: "e = \<lparr>word = concat S, edit = ed\<rparr>"
      by (auto simp: Edit_create_def split: sum.splits)
    have r: "ed = render (detailed_ops S T)" by (rule generate_detailed_edit_render [OF g])
    show ?thesis
      by (rule exI [of _ "detailed_ops S T"])
         (use len in \<open>simp add: e r op_ok_detailed_ops [OF pay] consumed_detailed_ops simple_detailed_ops\<close>)
  qed
qed

text \<open>
  C3, as the code has it: for equal-length group sequences whose target contains neither \<open>]\<close>
  nor a newline, every tag that \<open>Edit.create\<close> produces, other than the whole-word tags \<open>K\<close>
  (identical sequences) and \<open>D\<close> (the target is one empty group), and on the merge path
  provided that every source group is a single character, accounts for exactly the length of
  the source word in its \<open>K\<close>, \<open>D\<close>, \<open>R\<close>, \<open>M\<close> and \<open>S\<close> ops, insertions consuming nothing.
  When the word has no space and no \<open>#\<close>, \<open>is_applicable\<close> accepts the tag on the word.
\<close>

theorem create_consumption:
  assumes "length S = length T" and "payload_ok (concat T)"
    and "S \<noteq> T" and "T \<noteq> [[]]"
    and "is_merge S T \<longrightarrow> list_all (\<lambda>s. length s = 1) S"
    and "Edit_create S T = Inr e"
  shows "length (filter consumes_one (findall char_edit_re (edit e))) = length (word e) \<and>
         (CHR '' '' \<notin> set (word e) \<and> CHR ''#'' \<notin> set (word e) \<longrightarrow>
            is_applicable \<lparr>subword = word e, raw_subword = word e, subword_edit = edit e\<rparr> (word e))"
proof -
  from create_ops [OF assms] obtain ops where o: "edit e = render ops" "list_all op_ok ops"
    "consumed ops = length (word e)" "CHR '' '' \<notin> set (word e) \<longrightarrow> list_all simple ops"
    by blast
  have "length (filter consumes_one (findall char_edit_re (edit e))) = consumed ops"
    by (simp only: o(1) findall_render [OF o(2)] count_consumes_one)
  then show ?thesis
    using o is_applicable_simple [OF o(2) _ o(3), of "word e" "word e"] by simp
qed

text \<open>
  C3 as stated fails on the whole-word tags: the word \<open>ab\<close> deleted as a whole gets the tag
  \<open>D\<close>, which accounts for one character of two, and \<open>is_applicable\<close> rejects it on \<open>ab\<close>.
\<close>

theorem create_consumption_counterexample:
  "Edit_create [''ab''] [''''] = Inr \<lparr>word = ''ab'', edit = ''D''\<rparr> \<and>
   length (filter consumes_one (findall char_edit_re ''D'')) \<noteq> length ''ab'' \<and>
   \<not> is_applicable \<lparr>subword = ''ab'', raw_subword = ''ab'', subword_edit = ''D''\<rparr> ''ab''"
  by code_simp

theorem create_consumption_witness:
  "Edit_create [''t'', ''he'', '' '', ''cat''] [''t'', ''eh'', '''', ''cot'']
     = Inr \<lparr>word = ''the cat'', edit = ''KR_[e]R_[h]MR_[c]R_[o]R_[t]''\<rparr> \<and>
   length (filter consumes_one (findall char_edit_re ''KR_[e]R_[h]MR_[c]R_[o]R_[t]'')) = 7 \<and>
   Edit_create [''t'', ''eh''] [''t'', ''he''] = Inr \<lparr>word = ''teh'', edit = ''KR_[h]R_[e]''\<rparr> \<and>
   is_applicable \<lparr>subword = ''teh'', raw_subword = ''teh'', subword_edit = ''KR_[h]R_[e]''\<rparr> ''teh''"
proof -
  let ?S = "[''t'', ''he'', '' '', ''cat'']" and ?T = "[''t'', ''eh'', '''', ''cot'']"
  have c: "Edit_create ?S ?T = Inr \<lparr>word = ''the cat'', edit = ''KR_[e]R_[h]MR_[c]R_[o]R_[t]''\<rparr>"
    by code_simp
  have "length ?S = length ?T" "payload_ok (concat ?T)" "?S \<noteq> ?T" "?T \<noteq> [[]]"
    "is_merge ?S ?T \<longrightarrow> list_all (\<lambda>s. length s = 1) ?S"
    by (simp_all add: payload_ok_def NL_def is_merge_def)
  note a = create_consumption [OF this c]
  let ?U = "[''t'', ''eh'']" and ?V = "[''t'', ''he'']"
  have d: "Edit_create ?U ?V = Inr \<lparr>word = ''teh'', edit = ''KR_[h]R_[e]''\<rparr>"
    by code_simp
  have "length ?U = length ?V" "payload_ok (concat ?V)" "?U \<noteq> ?V" "?V \<noteq> [[]]"
    "is_merge ?U ?V \<longrightarrow> list_all (\<lambda>s. length s = 1) ?U"
    by (simp_all add: payload_ok_def NL_def is_merge_def)
  note b = create_consumption [OF this d]
  from a b c d show ?thesis by simp
qed

text \<open>
  The other exceptions of C3 are needed as well: the tag \<open>K\<close> of identical sequences is one op
  for the whole word, the merge tag has one op per group, and a \<open>]\<close> of the target ends the
  text of an insertion, so that the rest of the text is read as ops.
\<close>

lemma consumption_hypotheses_needed:
  "Edit_create [''ab''] [''ab''] = Inr \<lparr>word = ''ab'', edit = ''K''\<rparr> \<and>
   length (filter consumes_one (findall char_edit_re ''K'')) = 1 \<and>
   Edit_create [''ab'', '' '', ''c''] [''ab'', '''', ''c''] = Inr \<lparr>word = ''ab c'', edit = ''KMK''\<rparr> \<and>
   length (filter consumes_one (findall char_edit_re ''KMK'')) = 3 \<and>
   Edit_create [''''] [''K]K''] = Inr \<lparr>word = '''', edit = ''I_[K]K]''\<rparr> \<and>
   length (filter consumes_one (findall char_edit_re ''I_[K]K]'')) = 1"
  by code_simp

section \<open>The round trip of Edit.create and apply\<close>

lemma emitted_append:
  "list_all simple xs \<Longrightarrow> emitted (xs @ ys) s = emitted xs s @ emitted ys (drop (consumed xs) s)"
proof (induction xs arbitrary: s)
  case Nil
  then show ?case by simp
next
  case (Cons x xs)
  then show ?case by (cases x) (auto simp: add.commute)
qed

lemma apply_simple_ops:
  assumes "list_all op_ok ops" and "list_all simple ops" and "idx + consumed ops \<le> length sw"
  shows "apply_char_edits_from sw i (map render_op ops @ rest) idx out
           = apply_char_edits_from sw (i + length ops) rest (idx + consumed ops)
               (out @ emitted ops (drop idx sw))"
  using assms
proof (induction ops arbitrary: i idx out)
  case Nil
  then show ?case by simp
next
  case (Cons x ops)
  then have ok: "list_all op_ok ops" and si: "list_all simple ops" by simp_all
  show ?case
  proof (cases x)
    case Keep
    with Cons.prems have lt: "idx < length sw" and le: "Suc idx + consumed ops \<le> length sw" by simp_all
    have d: "drop idx sw = sw ! idx # drop (Suc idx) sw" using lt by (simp add: Cons_nth_drop_Suc)
    show ?thesis
      using Cons.IH [OF ok si le, of "Suc i" "out @ [sw ! idx]"] Keep lt
      by (simp add: apply_char_edits_from.simps(2) d)
  next
    case Delete
    with Cons.prems have le: "Suc idx + consumed ops \<le> length sw" by simp
    show ?thesis
      using Cons.IH [OF ok si le, of "Suc i" out] Delete
      by (simp add: apply_char_edits_from.simps(2))
  next
    case (Insert p)
    with Cons.prems have le: "idx + consumed ops \<le> length sw" and p: "payload_ok p" by simp_all
    show ?thesis
      using Cons.IH [OF ok si le, of "Suc i" "out @ p"] Insert
      by (simp add: apply_insert_step [OF p])
  next
    case (Replace p)
    with Cons.prems have le: "Suc idx + consumed ops \<le> length sw" and p: "payload_ok p" by simp_all
    show ?thesis
      using Cons.IH [OF ok si le, of "Suc i" "out @ p"] Replace
        sub_bracket_payload [OF p, of "CHR ''R''"]
      by (simp add: apply_char_edits_from.simps(2) rep_def)
  qed (use Cons.prems in simp_all)
qed

lemma not_sublist_hashes: "CHR ''#'' \<notin> set s \<Longrightarrow> \<not> sublist ''##'' s"
  by (auto dest: set_mono_sublist)

lemma simple_not_append: "list_all simple (x # Append p # r) \<Longrightarrow> False"
  by simp

lemma apply_simple_tag:
  assumes ok: "list_all op_ok ops" and si: "list_all simple ops"
    and co: "consumed ops = length sw" and nh: "CHR ''#'' \<notin> set sw"
  shows "SubwordEdit_apply \<lparr>subword = a, raw_subword = b, subword_edit = render ops\<rparr> sw
           = Inr (emitted ops sw)"
proof (cases "render ops = ''K''")
  case True
  then have o: "ops = [Keep]" by (simp add: render_eq_K)
  with co have "length sw = 1" by simp
  then have "take 1 sw = sw" by simp
  with True o show ?thesis by (simp add: SubwordEdit_apply_def)
next
  case False
  have xa: "\<not> prefix [c, CHR ''A''] (render ops)" for c
    using si by (auto simp: prefix_render_XA)
  have "apply_char_edits sw (map render_op ops) = Inr (emitted ops sw)"
    unfolding apply_char_edits_def
    using apply_simple_ops [OF ok si, of 0 sw 0 "[]" "[]"] co by simp
  with False xa [of "CHR ''K''"] xa [of "CHR ''D''"] show ?thesis
    by (simp add: SubwordEdit_apply_def findall_render [OF ok] remove_hashes_id [OF nh]
        not_sublist_hashes [OF nh])
qed

lemma isspace_space [simp]: "isspace (CHR '' '')"
  by (simp add: isspace_def)

lemma dropWhile_id: "\<forall>c\<in>set xs. \<not> P c \<Longrightarrow> dropWhile P xs = xs"
  by (cases xs) auto

lemma strip_id: "\<forall>c\<in>set s. \<not> isspace c \<Longrightarrow> strip s = s"
proof -
  assume a: "\<forall>c\<in>set s. \<not> isspace c"
  then have "\<forall>c\<in>set (rev s). \<not> isspace c" by simp
  then have "dropWhile isspace (rev s) = rev s" by (rule dropWhile_id)
  moreover from a have "dropWhile isspace s = s" by (rule dropWhile_id)
  ultimately show ?thesis by (simp add: strip_def)
qed

lemma emitted_replicate_Keep: "emitted (replicate n Keep) u = take n u"
proof (induction n arbitrary: u)
  case 0
  then show ?case by simp
next
  case (Suc n)
  then show ?case by (cases u) auto
qed

lemma emitted_replicate_Delete [simp]: "emitted (replicate n Delete @ ops) u = emitted ops (drop n u)"
  by (induction n arbitrary: u) (auto simp: drop_Suc drop_tl)

lemma emitted_map_Delete: "emitted (map (\<lambda>c. Delete) s) u = []"
  by (induction s arbitrary: u) auto

lemma emitted_keep_delete:
  "emitted (map (\<lambda>c. if P c then Delete else Keep) s) (s @ post) = filter (\<lambda>c. \<not> P c) s"
  by (induction s) auto

lemma emitted_scan:
  "CHR '' '' \<notin> set s \<Longrightarrow> length t \<le> length s \<Longrightarrow>
     emitted (scan_ops s t @ replicate n Delete) u = t"
proof (induction s t arbitrary: u rule: scan_ops.induct)
  case (1 ts)
  then show ?case using emitted_replicate_Delete [of n "[]"] by simp
next
  case (2 c cs)
  then show ?case using emitted_replicate_Delete [of n "[]"] by simp
next
  case (3 c cs t ts)
  then show ?case by auto
qed

lemma emitted_zip:
  "length s = length t \<Longrightarrow> CHR '' '' \<notin> set s \<Longrightarrow>
     emitted (concat (map (\<lambda>(s, t). if s = CHR '' '' then [Merge, Insert [t]] else [Replace [t]])
                          (zip s t))) u = t"
  by (induction s t arbitrary: u rule: list_induct2) auto

lemma emitted_map_Replace:
  "emitted (map (\<lambda>t. Replace [t]) xs @ ops) u = xs @ emitted ops (drop (length xs) u)"
  by (induction xs arbitrary: u) (auto simp: drop_Suc drop_tl)

lemma emitted_map_Insert: "emitted (map (\<lambda>t. Insert [t]) xs) u = xs"
  by (induction xs) auto

lemma emitted_get_edits_ops:
  assumes ns: "\<forall>c\<in>set s. \<not> isspace c" and lt: "length t < length s" and t: "t \<noteq> []"
    and c: "contained_ok s t"
  shows "emitted (get_edits_ops s t) (s @ post) = t"
proof -
  have sp: "CHR '' '' \<notin> set s" using ns by auto
  obtain e r q where sc: "replace_scan s t = (e, r, q)" by (cases "replace_scan s t") auto
  have st: "strip s = s" by (rule strip_id [OF ns])
  have k: "sublist t s \<Longrightarrow>
             emitted (map (\<lambda>c. if c \<notin> set t then Delete else Keep) s) (s @ post) = t"
    using emitted_keep_delete [of "\<lambda>c. c \<notin> set t" s post] c lt t by (simp add: contained_ok_def)
  show ?thesis
    using t lt k emitted_scan [OF sp, of t "length r" "s @ post"] sc
    by (auto simp: get_edits_ops_def st)
qed

lemma emitted_replacments_ops:
  assumes sp: "CHR '' '' \<notin> set s" and le: "length s \<le> length t" and s: "s \<noteq> []"
  shows "emitted (replacments_ops s t) u = t"
  using emitted_zip [OF _ sp, of t u] emitted_map_Replace [of "take (length s) t" "map (\<lambda>t. Insert [t]) (drop (length s) t)" u] le s
  by (auto simp: replacments_ops_def emitted_map_Insert)

lemma emitted_group_ops:
  assumes ns: "\<forall>c\<in>set s. \<not> isspace c" and c: "contained_ok s t"
  shows "emitted (group_ops s t) (s @ post) = t"
proof -
  have sp: "CHR '' '' \<notin> set s" using ns by auto
  then have s1: "s \<noteq> '' ''" by auto
  have d: "map (\<lambda>c. if c \<noteq> CHR '' '' then Delete else Merge) s = map (\<lambda>c. Delete) s"
    using sp by (induction s) auto
  show ?thesis
    using s1 emitted_get_edits_ops [OF ns _ _ c, of post] emitted_replacments_ops [OF sp, of t "s @ post"]
    by (auto simp: group_ops_def emitted_replicate_Keep d emitted_map_Delete)
qed

lemma emitted_detailed_ops:
  assumes "length S = length T" and "\<forall>c\<in>set (concat S). \<not> isspace c"
    and "list_all (\<lambda>(s, t). contained_ok s t) (zip S T)"
  shows "emitted (detailed_ops S T) (concat S @ post) = concat T"
  using assms
proof (induction S T arbitrary: post rule: list_induct2)
  case Nil
  then show ?case by (simp add: detailed_ops_def)
next
  case (Cons s S t T)
  then have ns: "\<forall>c\<in>set s. \<not> isspace c" and c: "contained_ok s t" by auto
  have sp: "CHR '' '' \<notin> set s" using ns by auto
  have d: "detailed_ops (s # S) (t # T) = group_ops s t @ detailed_ops S T"
    by (simp add: detailed_ops_def)
  have "emitted (detailed_ops S T) (concat S @ post) = concat T"
    using Cons by auto
  then show ?case
    using emitted_group_ops [OF ns c, of "concat S @ post"]
    by (simp add: d emitted_append simple_group_ops [OF sp] consumed_group_ops)
qed

lemma replace_scan_total:
  assumes "CHR '' '' \<notin> set s" and "length t \<le> length s"
  shows "\<exists>e r. replace_scan s t = (e, r, [])"
proof -
  obtain e r q where sc: "replace_scan s t = (e, r, q)" by (cases "replace_scan s t") auto
  have "filter (\<lambda>c. c \<noteq> CHR '' '') s = s" using assms(1) by (auto simp: filter_id_conv)
  then have "non_spaces s = length s" by (simp add: non_spaces_def)
  with replace_scan_tgt_rest [OF sc] assms(2) sc show ?thesis by simp
qed

lemma detailed_group_total:
  assumes "CHR '' '' \<notin> set s"
  shows "\<exists>e. detailed_group s t = Inr e"
proof -
  have g: "length t < length s \<Longrightarrow> \<exists>e. get_edits s t = Inr e"
    using replace_scan_total [OF assms, of t] by (auto simp: get_edits_def)
  have r: "length s \<le> length t \<Longrightarrow> \<exists>e. replacments s t = Inr e"
    by (auto simp: replacments_def)
  show ?thesis using g r by (auto simp: detailed_group_def)
qed

lemma generate_detailed_edit_total:
  "CHR '' '' \<notin> set (concat S) \<Longrightarrow> \<exists>e. generate_detailed_edit S T = Inr e"
proof (induction S T rule: generate_detailed_edit.induct)
  case (1 s ss t ts)
  from 1(2) obtain g where g: "detailed_group s t = Inr g"
    using detailed_group_total [of s t] by auto
  from 1(1) [OF g] 1(2) obtain r where "generate_detailed_edit ss ts = Inr r" by auto
  with g show ?case by simp
qed simp_all

lemma filter_no_space_groups:
  "CHR '' '' \<notin> set (concat S) \<Longrightarrow> filter (\<lambda>c. c \<noteq> '' '') S = S"
  by (induction S) auto

text \<open>
  C1: the tag of \<open>Edit.create\<close>, applied to the source word as one piece, is to give the
  joined target.  The code breaks this in the branch of \<open>get_edits\<close> for a target group that
  is a substring of its source group: the tag keeps every source character that occurs in
  the target group, also outside the occurrence.  For the source group \<open>aba\<close> and the target
  group \<open>ab\<close> the tag is \<open>KKK\<close>, and \<open>apply\<close> gives \<open>aba\<close> for \<open>aba\<close>, not \<open>ab\<close>.
\<close>

theorem create_apply_substring_bug:
  "get_edits ''aba'' ''ab'' = Inr ''KKK'' \<and>
   Edit_create [''aba''] [''ab''] = Inr \<lparr>word = ''aba'', edit = ''KKK''\<rparr> \<and>
   SubwordEdit_apply \<lparr>subword = ''aba'', raw_subword = ''aba'', subword_edit = ''KKK''\<rparr> ''aba''
     = Inr ''aba''"
  by code_simp

text \<open>
  Off that branch the round trip holds: for equal-length group sequences \<open>S\<close> and \<open>T\<close> such
  that the source has no whitespace and no \<open>#\<close>, the target has neither \<open>]\<close> nor a newline,
  \<open>T\<close> is not a mere regrouping of the characters of \<open>S\<close>, and no target group is a non-empty
  substring of a longer source group, \<open>Edit.create\<close> returns a tag, and applying it to the
  source word as one piece gives the joined target.
\<close>

lemma roundtrip_off_substring_branch:
  assumes len: "length S = length T"
    and src: "\<forall>c\<in>set (concat S). \<not> isspace c \<and> c \<noteq> CHR ''#''"
    and tgt: "payload_ok (concat T)"
    and reg: "S = T \<or> concat S \<noteq> concat T"
    and off: "list_all (\<lambda>(s, t). \<not> (length t < length s \<and> t \<noteq> [] \<and> sublist t s)) (zip S T)"
  shows "\<exists>e. Edit_create S T = Inr e \<and>
           SubwordEdit_apply \<lparr>subword = word e, raw_subword = word e, subword_edit = edit e\<rparr> (word e)
             = Inr (concat T)"
proof -
  have sub: "list_all (\<lambda>(s, t). contained_ok s t) (zip S T)"
    using off by (auto simp: list_all_iff contained_ok_def)
  have ns: "\<forall>c\<in>set (concat S). \<not> isspace c" using src by blast
  have nh: "CHR ''#'' \<notin> set (concat S)" using src by blast
  have sp: "CHR '' '' \<notin> set (concat S)"
  proof
    assume "CHR '' '' \<in> set (concat S)"
    with ns have "\<not> isspace (CHR '' '')" by blast
    then show False by simp
  qed
  show ?thesis
  proof (cases "S = T")
    case True
    then show ?thesis by (simp add: Edit_create_def SubwordEdit_apply_def)
  next
    case ne: False
    with reg have nm: "\<not> is_merge S T"
      by (simp add: is_merge_def filter_no_space_groups [OF sp])
    show ?thesis
    proof (cases "T = [[]]")
      case True
      with len obtain s where S: "S = [s]" by (cases S) auto
      with True ne have s: "s \<noteq> []" by auto
      have e: "Edit_create S T = Inr \<lparr>word = s, edit = ''D''\<rparr>"
        using True S s by (simp add: Edit_create_def)
      have ok: "list_all op_ok [Delete]" by simp
      have "findall char_edit_re ''D'' = [''D'']"
        using findall_render [OF ok] by simp
      moreover have "CHR ''#'' \<notin> set s" using nh S by simp
      ultimately have "SubwordEdit_apply \<lparr>subword = s, raw_subword = s, subword_edit = ''D''\<rparr> s = Inr []"
        by (simp add: SubwordEdit_apply_def apply_char_edits_def apply_char_edits_from.simps(2)
            not_sublist_hashes)
      with e True show ?thesis by simp
    next
      case nd: False
      show ?thesis
      proof (cases "S = [[]]")
        case True
        with len obtain t where T: "T = [t]" by (cases T) auto
        have e: "Edit_create S T = Inr \<lparr>word = [], edit = render [Insert t]\<rparr>"
          using True T ne nd by (simp add: Edit_create_def)
        have "SubwordEdit_apply \<lparr>subword = [], raw_subword = [], subword_edit = render [Insert t]\<rparr> []
                = Inr (emitted [Insert t] [])"
          by (rule apply_simple_tag) (use tgt T in simp_all)
        with e T show ?thesis by simp
      next
        case False
        obtain ed where g: "generate_detailed_edit S T = Inr ed"
          using generate_detailed_edit_total [OF sp] by blast
        have r: "ed = render (detailed_ops S T)" by (rule generate_detailed_edit_render [OF g])
        have e: "Edit_create S T = Inr \<lparr>word = concat S, edit = render (detailed_ops S T)\<rparr>"
          using False ne nd nm g r by (simp add: Edit_create_def)
        have "SubwordEdit_apply \<lparr>subword = concat S, raw_subword = concat S,
                                   subword_edit = render (detailed_ops S T)\<rparr> (concat S)
                = Inr (emitted (detailed_ops S T) (concat S))"
          by (rule apply_simple_tag [OF op_ok_detailed_ops [OF tgt] simple_detailed_ops [OF sp] _ nh])
             (simp add: consumed_detailed_ops len)
        moreover have "emitted (detailed_ops S T) (concat S) = concat T"
          using emitted_detailed_ops [OF len ns sub, of "[]"] by simp
        ultimately show ?thesis using e by simp
      qed
    qed
  qed
qed

text \<open>An instance: the groups of \<open>tehcats\<close> and \<open>thect!\<close>.\<close>

lemma roundtrip_example:
  "Edit_create [''t'', ''eh'', ''cat'', '''', ''s''] [''t'', ''he'', ''ct'', ''!'', ''''] 
     = Inr \<lparr>word = ''tehcats'', edit = ''KR_[h]R_[e]R_[c]R_[t]DI_[!]D''\<rparr> \<and>
   SubwordEdit_apply \<lparr>subword = ''tehcats'', raw_subword = ''tehcats'',
                      subword_edit = ''KR_[h]R_[e]R_[c]R_[t]DI_[!]D''\<rparr> ''tehcats''
     = Inr ''thect!''"
proof -
  let ?S = "[''t'', ''eh'', ''cat'', '''', ''s'']" and ?T = "[''t'', ''he'', ''ct'', ''!'', '''']"
  have c: "Edit_create ?S ?T = Inr \<lparr>word = ''tehcats'', edit = ''KR_[h]R_[e]R_[c]R_[t]DI_[!]D''\<rparr>"
    by code_simp
  have "length ?S = length ?T" "\<forall>c\<in>set (concat ?S). \<not> isspace c \<and> c \<noteq> CHR ''#''"
    "payload_ok (concat ?T)" "?S = ?T \<or> concat ?S \<noteq> concat ?T"
    "list_all (\<lambda>(s, t). \<not> (length t < length s \<and> t \<noteq> [] \<and> sublist t s)) (zip ?S ?T)"
    by (simp_all add: payload_ok_def NL_def isspace_def sublist_code)
  from roundtrip_off_substring_branch [OF this] c show ?thesis by simp
qed

text \<open>
  Each hypothesis of the round trip is needed.  A space of the source becomes an \<open>M\<close> or an
  \<open>S\<close>, which \<open>apply\<close> does not read; \<open>apply\<close> removes \<open>##\<close> from the piece and puts it in
  front of the result; a \<open>]\<close> of the target closes the text of its op and a newline of the
  target keeps the op from being read; a regrouping gets the merge tag, one \<open>K\<close> per group;
  and a group that \<open>strip\<close> shortens to one character gets one replacement per character.
\<close>

lemma roundtrip_hypotheses_needed:
  "Edit_create [''t'', ''h'', ''e'', '' '', ''c'', ''a'', ''t''] [''t'', ''h'', ''e'', '''', ''c'', ''a'', ''t'']
     = Inr \<lparr>word = ''the cat'', edit = ''KKKMKKK''\<rparr> \<and>
   SubwordEdit_apply \<lparr>subword = ''the cat'', raw_subword = ''the cat'', subword_edit = ''KKKMKKK''\<rparr>
       ''the cat'' = Inr ''the ca'' \<and>
   Edit_create [''##a''] [''##b''] = Inr \<lparr>word = ''##a'', edit = ''R_[#]R_[#]R_[b]''\<rparr> \<and>
   SubwordEdit_apply \<lparr>subword = ''##a'', raw_subword = ''##a'', subword_edit = ''R_[#]R_[#]R_[b]''\<rparr>
       ''##a'' = Inr ''####b'' \<and>
   Edit_create [''''] [''a]b''] = Inr \<lparr>word = '''', edit = ''I_[a]b]''\<rparr> \<and>
   SubwordEdit_apply \<lparr>subword = '''', raw_subword = '''', subword_edit = ''I_[a]b]''\<rparr> ''''
     = Inr ''a'' \<and>
   Edit_create [''''] [''a'' @ [NL] @ ''b''] = Inr \<lparr>word = '''', edit = ''I_[a'' @ [NL] @ ''b]''\<rparr> \<and>
   SubwordEdit_apply \<lparr>subword = '''', raw_subword = '''', subword_edit = ''I_[a'' @ [NL] @ ''b]''\<rparr> ''''
     = Inr ''I'' \<and>
   Edit_create [''abc'', ''''] [''a'', ''bc''] = Inr \<lparr>word = ''abc'', edit = ''KK''\<rparr> \<and>
   SubwordEdit_apply \<lparr>subword = ''abc'', raw_subword = ''abc'', subword_edit = ''KK''\<rparr> ''abc''
     = Inr ''ab'' \<and>
   Edit_create [[CHR 0x09, CHR ''a'']] [''x'']
     = Inr \<lparr>word = [CHR 0x09, CHR ''a''], edit = ''R_[x]R_[x]''\<rparr> \<and>
   SubwordEdit_apply \<lparr>subword = [CHR 0x09, CHR ''a''], raw_subword = [CHR 0x09, CHR ''a''],
                      subword_edit = ''R_[x]R_[x]''\<rparr> [CHR 0x09, CHR ''a''] = Inr ''xx''"
  by code_simp

section \<open>The projection onto pieces\<close>

lemma project_raw_post:
  "project_raw sws raws e = Inr raw \<Longrightarrow>
     concat raw = strip_soft_keep None e \<and> length raw = length sws \<and> length sws = length raws"
  apply (auto simp: project_raw_def Let_def split: sum.splits prod.splits if_splits)
  subgoal for idx sw_edits by (cases sw_edits) auto
  done

lemma project_edit_post:
  assumes "project_edit sws raws e = Inr es"
  shows "\<exists>raw. project_raw sws raws e = Inr raw \<and> map subword_edit es = map compress_edit raw \<and>
           length es = length sws"
proof -
  from assms obtain raw where r: "project_raw sws raws e = Inr raw"
    and es: "es = map (\<lambda>(sw, raw, ed). \<lparr>subword = sw, raw_subword = raw, subword_edit = compress_edit ed\<rparr>)
                     (zip sws (zip raws raw))"
    by (auto simp: project_edit_def split: sum.splits)
  from project_raw_post [OF r] have l: "length raw = length sws" "length sws = length raws" by simp_all
  have "map subword_edit (map (\<lambda>(sw, raw, ed). \<lparr>subword = sw, raw_subword = raw, subword_edit = compress_edit ed\<rparr>)
                     (zip xs (zip ys zs))) = map compress_edit zs"
    if "length zs = length xs" "length xs = length ys" for xs ys zs
    using that
  proof (induction zs arbitrary: xs ys)
    case Nil
    then show ?case by simp
  next
    case (Cons z zs)
    then obtain x xs' y ys' where "xs = x # xs'" "ys = y # ys'"
      by (cases xs; cases ys) auto
    with Cons show ?case by simp
  qed
  from this [OF l] r es l show ?thesis by auto
qed

lemma create_projection:
  assumes "SubwordEdits_create tokenizer aligned_src_word e = Inr r"
    and "pieces tokenizer aligned_src_word = (sws, raws)"
  shows "length sws = length raws \<and>
         (if sws = [] \<and> prefix ''I'' e
            then subwords r = [] \<and> map subword_edit (edits r) = [compress_edit e]
          else if e = ''K''
            then subwords r = sws \<and> map subword_edit (edits r) = replicate (length sws) ''K''
          else subwords r = sws \<and> length (edits r) = length sws \<and>
               (\<exists>raw. project_raw sws raws e = Inr raw \<and>
                      length raw = length sws \<and>
                      concat raw = strip_soft_keep None e \<and>
                      map subword_edit (edits r) = map compress_edit raw))"
proof -
  have c: "SubwordEdits_create tokenizer aligned_src_word e =
     (if length sws \<noteq> length raws then Inl AssertionError
         else if length sws = 0 \<and> prefix ''I'' e
           then Inr \<lparr>subwords = sws,
                     edits = [\<lparr>subword = [], raw_subword = [], subword_edit = compress_edit e\<rparr>]\<rparr>
         else if e = ''K''
           then Inr \<lparr>subwords = sws,
                     edits = map (\<lambda>(sw, raw). \<lparr>subword = sw, raw_subword = raw, subword_edit = ''K''\<rparr>)
                                 (zip sws raws)\<rparr>
         else (case project_edit sws raws e of
                 Inl err \<Rightarrow> Inl err
               | Inr subword_edits \<Rightarrow>
                   (let sws' = filter (\<lambda>wp. wp \<noteq> '' '') sws
                    in if length sws' \<noteq> length subword_edits then Inl AssertionError
                       else Inr \<lparr>subwords = sws', edits = subword_edits\<rparr>)))"
    using assms(2) by (simp add: SubwordEdits_create_def pieces_def)
  have k: "map subword_edit (map (\<lambda>(sw, raw). \<lparr>subword = sw, raw_subword = raw, subword_edit = ''K''\<rparr>)
                                 (zip xs ys)) = replicate (length xs) ''K''"
    if "length xs = length ys" for xs ys :: "string list"
    using that by (induction xs ys rule: list_induct2) auto
  have f: "length (filter P xs) = length xs \<Longrightarrow> filter P xs = xs" for P and xs :: "string list"
    by (metis filter_id_conv length_filter_less less_irrefl)
  show ?thesis
  proof (cases "length sws = length raws")
    case False
    with assms(1) c show ?thesis by simp
  next
    case l: True
    show ?thesis
    proof (cases "sws = [] \<and> prefix ''I'' e")
      case True
      with assms(1) c l show ?thesis by auto
    next
      case ni: False
      show ?thesis
      proof (cases "e = ''K''")
        case True
        with assms(1) c l ni k [OF l] show ?thesis by auto
      next
        case False
        with assms(1) c l ni obtain es where pe: "project_edit sws raws e = Inr es"
          and le: "length (filter (\<lambda>wp. wp \<noteq> '' '') sws) = length es"
          and r: "r = \<lparr>subwords = filter (\<lambda>wp. wp \<noteq> '' '') sws, edits = es\<rparr>"
          by (auto simp: Let_def split: sum.splits if_splits)
        from project_edit_post [OF pe] obtain raw where raw: "project_raw sws raws e = Inr raw"
          "map subword_edit es = map compress_edit raw" "length es = length sws" by blast
        from le raw(3) have "filter (\<lambda>wp. wp \<noteq> '' '') sws = sws" by (simp add: f)
        with False ni l r raw project_raw_post [OF raw(1)] show ?thesis by auto
      qed
    qed
  qed
qed

lemma project_re_bracket:
  assumes "payload_ok p" and "op_start rest" and "x = CHR ''I'' \<or> x = CHR ''R''"
  shows "project_re ((x # ''_['' @ p @ '']'') @ rest) = Some (length (x # ''_['' @ p @ '']''))"
  using assms bracket_op_match [of p rest x]
  by (auto simp: project_re_def bracket_op_other)

lemma findall_project_run:
  assumes "c = CHR ''K'' \<or> c = CHR ''D''"
  shows "findall project_re (c # rest)
           = (c # takeWhile (\<lambda>x. x = c) rest) # findall project_re (dropWhile (\<lambda>x. x = c) rest)"
proof -
  let ?tok = "c # takeWhile (\<lambda>x. x = c) rest"
  have "project_re (?tok @ dropWhile (\<lambda>x. x = c) rest) = Some (length ?tok)"
    using assms by (auto simp: project_re_def bracket_op_other plus_def)
  from findall_match [of project_re ?tok "dropWhile (\<lambda>x. x = c) rest", OF this]
  show ?thesis by simp
qed

lemma filter_findall_project_run:
  assumes "c = CHR ''K'' \<or> c = CHR ''D''" and "\<And>s. \<not> P (c # s)"
  shows "filter P (findall project_re (c # rest)) = filter P (findall project_re rest)"
proof (cases "prefix [c] rest")
  case True
  then obtain rest' where r: "rest = c # rest'" by (auto simp: prefix_def)
  show ?thesis
    unfolding r findall_project_run [OF assms(1), of "c # rest'"]
      findall_project_run [OF assms(1), of rest']
    using assms(2) by simp
next
  case False
  then have "dropWhile (\<lambda>x. x = c) rest = rest" by (cases rest; auto)
  then show ?thesis
    unfolding findall_project_run [OF assms(1)] using assms(2) by simp
qed

lemma filter_findall_project:
  assumes "list_all op_ok ops" and "list_all simple ops"
  shows "filter (prefix ''I_['') (findall project_re (render ops)) = map render_op (filter is_ins ops)"
    and "filter (prefix ''R_['') (findall project_re (render ops)) = map render_op (filter is_rep ops)"
  using assms
proof (induction ops)
  case Nil
  {
    case 1 show ?case by simp
  next
    case 2 show ?case by simp
  }
next
  case (Cons x ops)
  have st: "op_start (render ops)" by (rule op_start_render)
  {
    case 1
    then have ok: "list_all op_ok ops" "list_all simple ops" "op_ok x" "simple x" by simp_all
    note IH = Cons.IH(1) [OF ok(1,2)]
    show ?case
    proof (cases x)
      case Keep
      then show ?thesis using IH filter_findall_project_run [of "CHR ''K''" "prefix ''I_[''" "render ops"] by simp
    next
      case Delete
      then show ?thesis using IH filter_findall_project_run [of "CHR ''D''" "prefix ''I_[''" "render ops"] by simp
    next
      case (Insert p)
      with ok have p: "payload_ok p" by simp
      from findall_match [of project_re "CHR ''I'' # ''_['' @ p @ '']''" "render ops",
          OF project_re_bracket [OF p st]]
      show ?thesis using Insert IH by (simp add: ins_def)
    next
      case (Replace p)
      with ok have p: "payload_ok p" by simp
      from findall_match [of project_re "CHR ''R'' # ''_['' @ p @ '']''" "render ops",
          OF project_re_bracket [OF p st]]
      show ?thesis using Replace IH by (simp add: rep_def)
    qed (use ok in simp_all)
  next
    case 2
    then have ok: "list_all op_ok ops" "list_all simple ops" "op_ok x" "simple x" by simp_all
    note IH = Cons.IH(2) [OF ok(1,2)]
    show ?case
    proof (cases x)
      case Keep
      then show ?thesis using IH filter_findall_project_run [of "CHR ''K''" "prefix ''R_[''" "render ops"] by simp
    next
      case Delete
      then show ?thesis using IH filter_findall_project_run [of "CHR ''D''" "prefix ''R_[''" "render ops"] by simp
    next
      case (Insert p)
      with ok have p: "payload_ok p" by simp
      from findall_match [of project_re "CHR ''I'' # ''_['' @ p @ '']''" "render ops",
          OF project_re_bracket [OF p st]]
      show ?thesis using Insert IH by (simp add: ins_def)
    next
      case (Replace p)
      with ok have p: "payload_ok p" by simp
      from findall_match [of project_re "CHR ''R'' # ''_['' @ p @ '']''" "render ops",
          OF project_re_bracket [OF p st]]
      show ?thesis using Replace IH by (simp add: rep_def)
    qed (use ok in simp_all)
  }
qed

lemma simple_cases:
  assumes "simple x"
  obtains "x = Keep" | "x = Delete" | p where "x = Insert p" | p where "x = Replace p"
  using assms by (cases x) auto

lemma project_while_simple:
  assumes "list_all op_ok rem" and "list_all simple rem" and "n \<le> consumed rem"
    and "e = pre @ render rem" and "idx = length pre"
    and "inserts = map render_op (filter is_ins rem)"
    and "replaces = map render_op (filter is_rep rem)"
  shows "project_while e n idx acc cur inserts replaces
           = Inr (idx + length (render (take_ops n rem)), acc, cur @ render (take_ops n rem),
                  map render_op (filter is_ins (drop (length (take_ops n rem)) rem)),
                  map render_op (filter is_rep (drop (length (take_ops n rem)) rem)))"
  using assms
proof (induction rem arbitrary: n pre idx cur inserts replaces)
  case Nil
  then show ?case by (subst project_while.simps) simp
next
  case (Cons x rem)
  show ?case
  proof (cases n)
    case 0
    then show ?thesis using Cons.prems by (subst project_while.simps) simp
  next
    case (Suc m)
    from Cons.prems have ok: "list_all op_ok rem" and si: "list_all simple rem" and sx: "simple x"
      and okx: "op_ok x" by simp_all
    have lt: "idx < length e" using Cons.prems(4,5) by simp
    have hd: "e ! idx = hd (render_op x)"
      using Cons.prems(4,5) by (cases "render_op x") (simp_all add: nth_append)
    from sx show ?thesis
    proof (cases rule: simple_cases)
      case 1
      have e': "e = (pre @ ''K'') @ render rem" using Cons.prems(4) 1 by simp
      have m: "m \<le> consumed rem" using Cons.prems(3) Suc 1 by simp
      have st: "project_while e (Suc m) idx acc cur inserts replaces
                  = project_while e m (idx + 1) acc (cur @ ''K'') inserts replaces"
        using lt hd 1 by (subst project_while.simps) simp
      show ?thesis
        unfolding Suc st
        using Cons.IH [OF ok si m e', of "idx + 1" inserts replaces "cur @ ''K''"] Cons.prems(5,6,7) 1
        by simp
    next
      case 2
      have e': "e = (pre @ ''D'') @ render rem" using Cons.prems(4) 2 by simp
      have m: "m \<le> consumed rem" using Cons.prems(3) Suc 2 by simp
      have st: "project_while e (Suc m) idx acc cur inserts replaces
                  = project_while e m (idx + 1) acc (cur @ ''D'') inserts replaces"
        using lt hd 2 by (subst project_while.simps) simp
      show ?thesis
        unfolding Suc st
        using Cons.IH [OF ok si m e', of "idx + 1" inserts replaces "cur @ ''D''"] Cons.prems(5,6,7) 2
        by simp
    next
      case (3 p)
      have e': "e = (pre @ ins p) @ render rem" using Cons.prems(4) 3 by simp
      have m: "Suc m \<le> consumed rem" using Cons.prems(3) Suc 3 by simp
      have i: "inserts = ins p # map render_op (filter is_ins rem)" using Cons.prems(6) 3 by simp
      have st: "project_while e (Suc m) idx acc cur inserts replaces
                  = project_while e (Suc m) (idx + length (ins p)) acc (cur @ ins p)
                      (map render_op (filter is_ins rem)) replaces"
        using lt hd 3 i by (subst project_while.simps) (simp add: ins_def)
      show ?thesis
        unfolding Suc st
        using Cons.IH [OF ok si m e', of "idx + length (ins p)" "map render_op (filter is_ins rem)"
            replaces "cur @ ins p"] Cons.prems(5,7) 3
        by simp
    next
      case (4 p)
      have e': "e = (pre @ rep p) @ render rem" using Cons.prems(4) 4 by simp
      have m: "m \<le> consumed rem" using Cons.prems(3) Suc 4 by simp
      have i: "replaces = rep p # map render_op (filter is_rep rem)" using Cons.prems(7) 4 by simp
      have st: "project_while e (Suc m) idx acc cur inserts replaces
                  = project_while e m (idx + length (rep p)) acc (cur @ rep p)
                      inserts (map render_op (filter is_rep rem))"
        using lt hd 4 i by (subst project_while.simps) (simp add: rep_def)
      show ?thesis
        unfolding Suc st
        using Cons.IH [OF ok si m e', of "idx + length (rep p)" inserts
            "map render_op (filter is_rep rem)" "cur @ rep p"] Cons.prems(5,6) 4
        by simp
    qed
  qed
qed

lemma consumed_take_ops:
  "list_all simple ops \<Longrightarrow> n \<le> consumed ops \<Longrightarrow> consumed (take_ops n ops) = n"
proof (induction n ops rule: take_ops.induct)
  case (3 n x ops)
  then show ?case by (cases x) auto
qed simp_all

lemma take_ops_prefix: "take_ops n ops @ drop (length (take_ops n ops)) ops = ops"
  by (induction n ops rule: take_ops.induct) auto

lemma take_ops_take: "take (length (take_ops n ops)) ops = take_ops n ops"
  by (induction n ops rule: take_ops.induct) auto

lemma consumed_drop_take_ops:
  assumes "list_all simple ops" and "n \<le> consumed ops"
  shows "consumed (drop (length (take_ops n ops)) ops) = consumed ops - n"
proof -
  have "consumed (take_ops n ops @ drop (length (take_ops n ops)) ops) = consumed ops"
    by (simp only: take_ops_prefix)
  then show ?thesis using consumed_take_ops [OF assms] by simp
qed

lemma chunks_prefix:
  "concat (chunks ns ops) @ drop (length (concat (chunks ns ops))) ops = ops"
proof (induction ns arbitrary: ops)
  case Nil
  then show ?case by simp
next
  case (Cons n ns)
  have "concat (chunks ns (drop (length (take_ops n ops)) ops))
          @ drop (length (concat (chunks ns (drop (length (take_ops n ops)) ops))))
              (drop (length (take_ops n ops)) ops)
        = drop (length (take_ops n ops)) ops"
    by (rule Cons.IH)
  then show ?case
    using take_ops_prefix [of n ops] by (simp add: add.commute)
qed

lemma length_chunks [simp]: "length (chunks ns ops) = length ns"
  by (induction ns arbitrary: ops) auto

lemma list_all_drop: "list_all P xs \<Longrightarrow> list_all P (drop n xs)"
  by (auto simp: list_all_iff dest: in_set_dropD)

lemma project_pieces_simple:
  assumes "list_all op_ok rem" and "list_all simple rem"
    and "sum_list (map budget sws) \<le> consumed rem"
    and "e = pre @ render rem" and "idx = length pre"
    and "inserts = map render_op (filter is_ins rem)"
    and "replaces = map render_op (filter is_rep rem)"
  shows "project_pieces e sws idx acc inserts replaces
           = Inr (idx + length (render (concat (chunks (map budget sws) rem))),
                  acc @ map render (chunks (map budget sws) rem))"
  using assms
proof (induction sws arbitrary: rem pre idx acc inserts replaces)
  case Nil
  then show ?case by simp
next
  case (Cons sw sws)
  let ?t = "take_ops (budget sw) rem"
  let ?r = "drop (length ?t) rem"
  have n: "budget sw \<le> consumed rem" using Cons.prems(3) by simp
  have w: "project_while e (budget sw) idx acc [] inserts replaces
             = Inr (idx + length (render ?t), acc, render ?t,
                    map render_op (filter is_ins ?r), map render_op (filter is_rep ?r))"
    using project_while_simple [OF Cons.prems(1,2) n Cons.prems(4,5,6,7), of acc "[]"] by simp
  have ok: "list_all op_ok ?r" "list_all simple ?r"
    using Cons.prems(1,2) by (simp_all add: list_all_drop)
  have c: "sum_list (map budget sws) \<le> consumed ?r"
    using consumed_drop_take_ops [OF Cons.prems(2) n] Cons.prems(3) by simp
  have e': "e = (pre @ render ?t) @ render ?r"
    using Cons.prems(4) take_ops_prefix [of "budget sw" rem]
    by (metis append.assoc render_append)
  have i': "idx + length (render ?t) = length (pre @ render ?t)" using Cons.prems(5) by simp
  show ?case
    using Cons.IH [OF ok c e' i' refl refl, of "acc @ [render ?t]"] w
    by (simp add: budget_def [symmetric] add.assoc)
qed

lemma strip_soft_keep_id: "CHR ''S'' \<notin> set s \<Longrightarrow> strip_soft_keep prev s = s"
  by (induction s arbitrary: prev) auto

lemma concat_butlast_last:
  "xs \<noteq> [] \<Longrightarrow> concat (butlast xs @ [last xs @ l]) = concat xs @ l"
  by (induction xs) auto

lemma project_raw_simple:
  assumes ok: "list_all op_ok ops" and si: "list_all simple ops"
    and bu: "sum_list (map budget sws) \<le> consumed ops"
    and ns: "CHR ''S'' \<notin> set (render ops)"
    and ne: "sws \<noteq> []" and le: "length sws = length raws"
  shows "\<exists>raw. project_raw sws raws (render ops) = Inr raw"
proof -
  let ?e = "render ops"
  let ?cs = "chunks (map budget sws) ops"
  let ?idx = "length (render (concat ?cs))"
  let ?acc = "map render ?cs"
  have p: "project_pieces ?e sws 0 [] (filter (prefix ''I_['') (findall project_re ?e))
             (filter (prefix ''R_['') (findall project_re ?e)) = Inr (?idx, ?acc)"
    using project_pieces_simple [OF ok si bu, of ?e "[]" 0 _ _ "[]"]
    by (simp add: filter_findall_project [OF ok si])
  have an: "?acc \<noteq> []" using ne by (cases sws) auto
  have la: "length ?acc = length sws" by simp
  have full: "render (concat ?cs) @ drop ?idx ?e = ?e"
  proof -
    have "render (concat ?cs @ drop (length (concat ?cs)) ops) = ?e"
      by (simp only: chunks_prefix)
    then have "render (concat ?cs) @ render (drop (length (concat ?cs)) ops) = ?e" by simp
    then show ?thesis by (metis append_eq_conv_conj)
  qed
  have cc: "concat ?acc = render (concat ?cs)" by (simp add: render_concat)
  have s: "strip_soft_keep None ?e = ?e" by (rule strip_soft_keep_id [OF ns])
  show ?thesis
  proof (cases "?idx < length ?e")
    case True
    have "concat (butlast ?acc @ [last ?acc @ drop ?idx ?e]) = ?e"
      using concat_butlast_last [OF an, of "drop ?idx ?e"] cc full by simp
    moreover have "length (butlast ?acc @ [last ?acc @ drop ?idx ?e]) = length sws"
      using an la by (cases ?acc rule: rev_cases) auto
    ultimately show ?thesis
      using True p an s le unfolding project_raw_def Let_def by simp
  next
    case False
    then have "drop ?idx ?e = []" by simp
    with full cc have "concat ?acc = ?e" by simp
    then show ?thesis
      using False p s le la unfolding project_raw_def Let_def by simp
  qed
qed

lemma create_simple:
  assumes pi: "pieces tokenizer w = (sws, raws)" and le: "length sws = length raws"
    and ne: "sws \<noteq> []" and sp: "'' '' \<notin> set sws"
    and ok: "list_all op_ok ops" and si: "list_all simple ops"
    and ns: "CHR ''S'' \<notin> set (render ops)" and nk: "render ops \<noteq> ''K''"
    and bu: "sum_list (map budget sws) \<le> consumed ops"
  shows "\<exists>r. SubwordEdits_create tokenizer w (render ops) = Inr r"
proof -
  from project_raw_simple [OF ok si bu ns ne le] obtain raw
    where raw: "project_raw sws raws (render ops) = Inr raw" by blast
  from project_raw_post [OF raw] have lr: "length raw = length sws" by simp
  have f: "filter (\<lambda>wp. wp \<noteq> '' '') sws = sws" using sp by (auto simp: filter_id_conv)
  have "length (map (\<lambda>(sw, raw, ed). \<lparr>subword = sw, raw_subword = raw, subword_edit = compress_edit ed\<rparr>)
                   (zip sws (zip raws raw))) = length sws"
    using lr le by simp
  then show ?thesis
    using pi le ne nk raw f
    by (simp add: SubwordEdits_create_def pieces_def project_edit_def Let_def)
qed

text \<open>
  C2, as the code has it.  Whenever \<open>SubwordEdits.create\<close> returns, the raw and the
  normalized pieces are equally many, and: for zero pieces and a tag that starts with \<open>I\<close> it
  yields the one synthetic piece with the compressed tag; for the tag \<open>K\<close> it yields one \<open>K\<close>
  per piece; otherwise it yields exactly one per-piece tag per piece, and these are the
  compressions of the raw per-piece tags, whose concatenation is the word tag after the
  removal of the soft-keep markers by the pattern of the code.  And it does return whenever
  the pieces are equally many and at least one, none of them is a lone space, and the tag is
  a concatenation of \<open>K\<close>, \<open>D\<close>, \<open>I_[text]\<close> and \<open>R_[text]\<close> ops other than the tag \<open>K\<close>, without a
  \<open>]\<close>, a newline or an \<open>S\<close> in a text, whose \<open>K\<close>, \<open>D\<close> and \<open>R\<close> ops are at least as many as
  the characters of the pieces, continuation markers left out.
\<close>

theorem projection_postcondition:
  assumes "pieces tokenizer aligned_src_word = (sws, raws)"
  shows "(SubwordEdits_create tokenizer aligned_src_word e = Inr r \<longrightarrow>
            length sws = length raws \<and>
            (if sws = [] \<and> prefix ''I'' e
               then subwords r = [] \<and> map subword_edit (edits r) = [compress_edit e]
             else if e = ''K''
               then subwords r = sws \<and> map subword_edit (edits r) = replicate (length sws) ''K''
             else subwords r = sws \<and> length (edits r) = length sws \<and>
                  (\<exists>raw. project_raw sws raws e = Inr raw \<and>
                         length raw = length sws \<and>
                         concat raw = strip_soft_keep None e \<and>
                         map subword_edit (edits r) = map compress_edit raw))) \<and>
         (length sws = length raws \<and> sws \<noteq> [] \<and> '' '' \<notin> set sws \<and>
          e = render ops \<and> list_all op_ok ops \<and> list_all simple ops \<and>
          CHR ''S'' \<notin> set e \<and> e \<noteq> ''K'' \<and> sum_list (map budget sws) \<le> consumed ops
            \<longrightarrow> (\<exists>r'. SubwordEdits_create tokenizer aligned_src_word e = Inr r'))"
  using create_projection [OF _ assms, of e r] create_simple [OF assms, of ops]
  by blast

theorem projection_postcondition_witness:
  "SubwordEdits_create None ''the cat'' ''KKR_[x]MI_[a]I_[b]KKK''
     = Inr \<lparr>subwords = [''the'', ''cat''],
            edits = [\<lparr>subword = ''the'', raw_subword = ''the'', subword_edit = ''KKR_[x]''\<rparr>,
                     \<lparr>subword = ''cat'', raw_subword = ''cat'', subword_edit = ''MI_[ab]KKK''\<rparr>]\<rparr> \<and>
   project_raw [''the'', ''cat''] [''the'', ''cat''] ''KKR_[x]MI_[a]I_[b]KKK''
     = Inr [''KKR_[x]'', ''MI_[a]I_[b]KKK''] \<and>
   SubwordEdits_create (Some (\<lambda>w. ([[''te'', ''h'']], [[''te'', ''##h'']]))) ''teh'' ''KR_[h]I_[x]R_[e]''
     = Inr \<lparr>subwords = [''te'', ''##h''],
            edits = [\<lparr>subword = ''te'', raw_subword = ''te'', subword_edit = ''KR_[h]''\<rparr>,
                     \<lparr>subword = ''##h'', raw_subword = ''h'', subword_edit = ''I_[x]R_[e]''\<rparr>]\<rparr>"
proof -
  have c: "SubwordEdits_create None ''the cat'' ''KKR_[x]MI_[a]I_[b]KKK''
     = Inr \<lparr>subwords = [''the'', ''cat''],
            edits = [\<lparr>subword = ''the'', raw_subword = ''the'', subword_edit = ''KKR_[x]''\<rparr>,
                     \<lparr>subword = ''cat'', raw_subword = ''cat'', subword_edit = ''MI_[ab]KKK''\<rparr>]\<rparr>"
    by code_simp
  have p: "pieces None ''the cat'' = ([''the'', ''cat''], [''the'', ''cat''])"
    by code_simp
  have r: "project_raw [''the'', ''cat''] [''the'', ''cat''] ''KKR_[x]MI_[a]I_[b]KKK''
     = Inr [''KKR_[x]'', ''MI_[a]I_[b]KKK'']"
    by code_simp
  note a = projection_postcondition [OF p, of "''KKR_[x]MI_[a]I_[b]KKK''" _ "[]"]
  let ?tk = "Some (\<lambda>w :: string. ([[''te'', ''h'']], [[''te'', ''##h'']]))"
  let ?ops = "[Keep, Replace ''h'', Insert ''x'', Replace ''e'']"
  have q: "pieces ?tk ''teh'' = ([''te'', ''##h''], [''te'', ''h''])"
    by (simp add: pieces_def)
  have e: "render ?ops = ''KR_[h]I_[x]R_[e]''" by (simp add: ins_def rep_def)
  have h: "list_all op_ok ?ops" "list_all simple ?ops" "sum_list (map budget [''te'', ''##h'']) \<le> consumed ?ops"
    by (simp_all add: payload_ok_def NL_def budget_def)
  have d: "SubwordEdits_create ?tk ''teh'' ''KR_[h]I_[x]R_[e]''
     = Inr \<lparr>subwords = [''te'', ''##h''],
            edits = [\<lparr>subword = ''te'', raw_subword = ''te'', subword_edit = ''KR_[h]''\<rparr>,
                     \<lparr>subword = ''##h'', raw_subword = ''h'', subword_edit = ''I_[x]R_[e]''\<rparr>]\<rparr>"
    by code_simp
  note b = projection_postcondition [OF q, of "render ?ops" _ ?ops, unfolded e]
  show ?thesis using a b h by (simp only: c r d simp_thms)
qed

text \<open>
  C2 as stated fails: for the tag \<open>K\<close> and two pieces the per-piece tags concatenate to \<open>KK\<close>,
  and for the tag \<open>D\<close> and the piece \<open>ab\<close> the projection runs out of the tag and stops at the
  breakpoint, so that no per-piece tag is produced.
\<close>

theorem projection_postcondition_counterexample:
  "pieces None ''ab cd'' = ([''ab'', ''cd''], [''ab'', ''cd'']) \<and>
   SubwordEdits_create None ''ab cd'' ''K''
     = Inr \<lparr>subwords = [''ab'', ''cd''],
            edits = [\<lparr>subword = ''ab'', raw_subword = ''ab'', subword_edit = ''K''\<rparr>,
                     \<lparr>subword = ''cd'', raw_subword = ''cd'', subword_edit = ''K''\<rparr>]\<rparr> \<and>
   concat [''K'', ''K''] \<noteq> strip_soft_keep None ''K'' \<and>
   pieces None ''ab'' = ([''ab''], [''ab'']) \<and>
   SubwordEdits_create None ''ab'' ''D'' = Inl Breakpoint"
  by code_simp

text \<open>
  The pattern that removes the soft-keep markers also removes an \<open>S\<close> inside a longer text:
  for the tag \<open>KI_[xSy]\<close>, which \<open>Edit.create\<close> builds for the text \<open>xSy\<close> inserted after a kept
  \<open>a\<close>, the per-piece tag is the word tag, and the assertion on the concatenation fails.
\<close>

lemma projection_soft_keep_in_text:
  "Edit_create [''a'', ''''] [''a'', ''xSy''] = Inr \<lparr>word = ''a'', edit = ''KI_[xSy]''\<rparr> \<and>
   strip_soft_keep None ''KI_[xSy]'' = ''KI_[xy]'' \<and>
   SubwordEdits_create None ''a'' ''KI_[xSy]'' = Inl AssertionError"
  by code_simp

end
